theory Spec2Isabelle
  imports Complex_Main "HOL-Library.Sublist" "HOL-Library.Multiset" "HOL-Library.Log_Nat"
begin

section \<open>Data model (preprocessing.py, lines 10--35)\<close>

text \<open>
  Exceptions the modelled code can raise, as values. \<open>ParseError\<close> is the failure of the
  XML library, \<open>FileNotFoundError\<close> the failure of \<open>open\<close>, \<open>UnicodeDecodeError\<close> and
  \<open>UnicodeEncodeError\<close> the failures of reading and writing a text file, and
  \<open>OverflowError\<close> the failure of a division of integers whose quotient is too large for
  a float.
\<close>

datatype error =
    ZeroDivisionError
  | OverflowError
  | IndexError
  | ValueError
  | AttributeError
  | FileNotFoundError
  | UnicodeDecodeError
  | UnicodeEncodeError
  | ParseError

record SentencePair =
  source :: "string list"
  target :: "string list"

record TokenizedSentencePair =
  source_tokens :: "int list"
  target_tokens :: "int list"

text \<open>
  \<open>LabeledAlignment\<close> is a frozen dataclass: its two fields can never be rebound, but
  each holds a Python list, which is a mutable object. The record is parametric in what a
  field holds. The metric functions mutate the lists in place, so there a field is the
  address of a list object in a store (\<open>addr LabeledAlignment\<close>); the loader builds fresh
  lists, so there a field is the list itself.
\<close>

record 'a LabeledAlignment =
  sure :: 'a
  possible :: 'a

section \<open>The store of list objects (metrics.py)\<close>

type_synonym addr = nat
type_synonym pair = "int \<times> int"
type_synonym heap = "addr \<Rightarrow> pair list"

text \<open>
  metrics.py, lines 21--24, the inner loop
  \<^verbatim>\<open>for pair in sent.sure: if pair not in sent.possible: sent.possible.append(pair)\<close>.
  A Python list iterator keeps an index into the live list and stops when the index
  reaches the current length; \<open>i\<close> is that index, \<open>s\<close> and \<open>p\<close> the addresses of
  \<open>sent.sure\<close> and \<open>sent.possible\<close>, which may be the same object.
\<close>

function repair_sent :: "heap \<Rightarrow> addr \<Rightarrow> addr \<Rightarrow> nat \<Rightarrow> heap" where
  "repair_sent h s p i =
     (if i < length (h s)
      then (if h s ! i \<in> set (h p)
            then repair_sent h s p (Suc i)
            else repair_sent (h(p := h p @ [h s ! i])) s p (Suc i))
      else h)"
  by pat_completeness auto
termination
proof (relation "measure (\<lambda>(h, s, p, i). length (h s) - i)")
  show "wf (measure (\<lambda>(h, s, p, i). length (h s) - i))"
    by simp
next
  fix h :: heap and s p i
  assume "i < length (h s)" and "h s ! i \<in> set (h p)"
  then show "((h, s, p, Suc i), (h, s, p, i)) \<in> measure (\<lambda>(h, s, p, i). length (h s) - i)"
    by simp
next
  fix h :: heap and s p i
  assume lt: "i < length (h s)" and notin: "h s ! i \<notin> set (h p)"
  from lt notin have "s \<noteq> p"
    using nth_mem by blast
  with lt show "((h(p := h p @ [h s ! i]), s, p, Suc i), (h, s, p, i))
      \<in> measure (\<lambda>(h, s, p, i). length (h s) - i)"
    by simp
qed

declare repair_sent.simps [simp del]

text \<open>metrics.py, lines 21--24, the outer loop \<^verbatim>\<open>for sent in reference\<close>.\<close>

fun repair :: "heap \<Rightarrow> addr LabeledAlignment list \<Rightarrow> heap" where
  "repair h [] = h"
| "repair h (sent # rest) = repair (repair_sent h (sure sent) (possible sent) 0) rest"

text \<open>
  \<open>compute_precision\<close> (metrics.py, lines 6--30). \<open>predicted\<close> is a list of list objects
  too, given by their addresses. The function returns the store it leaves behind and the
  pair \<open>(A_intersect_P, A)\<close>; both sums are taken after the repair loop has run.
\<close>

definition compute_precision ::
  "heap \<Rightarrow> addr LabeledAlignment list \<Rightarrow> addr list \<Rightarrow> heap \<times> (int \<times> int)" where
  "compute_precision h reference predicted =
     (let h' = repair h reference;
          A_intersect_P = sum_list (map (\<lambda>(ref_sent, pred_sent).
              int (length (filter (\<lambda>pair. pair \<in> set (h' (possible ref_sent))) (h' pred_sent))))
            (zip reference predicted));
          A = sum_list (map (\<lambda>pred_sent. int (length (h' pred_sent))) predicted)
      in (h', (A_intersect_P, A)))"

text \<open>\<open>compute_recall\<close> (metrics.py, lines 33--50) only reads the store.\<close>

definition compute_recall ::
  "heap \<Rightarrow> addr LabeledAlignment list \<Rightarrow> addr list \<Rightarrow> int \<times> int" where
  "compute_recall h reference predicted =
     (let A_intersect_S = sum_list (map (\<lambda>(ref_sent, pred_sent).
              int (length (filter (\<lambda>pair. pair \<in> set (h (sure ref_sent))) (h pred_sent))))
            (zip reference predicted));
          S = sum_list (map (\<lambda>ref_sent. int (length (h (sure ref_sent)))) reference)
      in (A_intersect_S, S))"

text \<open>
  Python floats are IEEE 754 binary64 numbers. A finite float is given here by its value,
  a rational. \<open>binary64_nearest x\<close> is the binary64 number nearest to \<open>x\<close>, ties going to
  the even significand, as if the exponent had no upper bound: with \<open>e\<close> the exponent of
  \<open>x\<close> (\<open>2 ^ e \<le> |x| < 2 ^ (e + 1)\<close>), the spacing of the format at \<open>x\<close> is
  \<open>2 ^ (max e (-1022) - 52)\<close>, which covers the subnormal numbers, and \<open>x\<close> is rounded to a
  multiple of it. The rounding overflows when the result reaches \<open>2 ^ 1024\<close>.
\<close>

definition round_half_even :: "rat \<Rightarrow> int" where
  "round_half_even x =
     (let f = \<lfloor>x\<rfloor>; r = x - of_int f
      in if r < 1 / 2 then f else if 1 / 2 < r then f + 1 else if even f then f else f + 1)"

definition ilog2 :: "rat \<Rightarrow> int" where
  "ilog2 a =
     (case quotient_of a of
        (n, d) \<Rightarrow> (let k = bitlen n - bitlen d in if 2 powi k \<le> a then k else k - 1))"

definition binary64_nearest :: "rat \<Rightarrow> rat" where
  "binary64_nearest x =
     (if x = 0 then 0
      else (let q = max (ilog2 \<bar>x\<bar>) (- 1022) - 52
            in sgn x * (of_int (round_half_even (\<bar>x\<bar> / 2 powi q)) * 2 powi q)))"

definition binary64_overflow :: "rat \<Rightarrow> bool" where
  "binary64_overflow x = (2 powi 1024 \<le> \<bar>binary64_nearest x\<bar>)"

text \<open>The largest finite binary64 number.\<close>

definition binary64_max :: rat where
  "binary64_max = 2 powi 1024 - 2 powi 971"

text \<open>
  Python's \<open>/\<close> on two ints: \<open>ZeroDivisionError\<close> for a zero divisor, otherwise the
  correctly rounded quotient, or \<open>OverflowError\<close> when that is too large for a float.
\<close>

definition int_true_divide :: "int \<Rightarrow> int \<Rightarrow> error + rat" where
  "int_true_divide a b =
     (if b = 0 then Inl ZeroDivisionError
      else if binary64_overflow (of_int a / of_int b) then Inl OverflowError
      else Inr (binary64_nearest (of_int a / of_int b)))"

text \<open>
  The difference of two floats, rounded. A difference that overflows would be an infinity,
  which has no value here; lemma \<open>float_sub_finite\<close> below shows that the subtraction in
  \<open>compute_aer\<close> never overflows.
\<close>

definition float_sub :: "rat \<Rightarrow> rat \<Rightarrow> rat" where
  "float_sub x y = binary64_nearest (x - y)"

text \<open>
  \<open>compute_aer\<close> (metrics.py, lines 53--69):
  \<^verbatim>\<open>1 - (A_intersect_P + A_intersect_S) / (A + S)\<close>, the division of two ints giving a float
  and the subtraction being one of floats (the int \<open>1\<close> is the float \<open>1.0\<close>).
\<close>

definition compute_aer ::
  "heap \<Rightarrow> addr LabeledAlignment list \<Rightarrow> addr list \<Rightarrow> heap \<times> (error + rat)" where
  "compute_aer h reference predicted =
     (case compute_precision h reference predicted of
        (h', (A_intersect_P, A)) \<Rightarrow>
          (case compute_recall h' reference predicted of
             (A_intersect_S, S) \<Rightarrow>
               (h', case int_true_divide (A_intersect_P + A_intersect_S) (A + S) of
                      Inl e \<Rightarrow> Inl e
                    | Inr ratio \<Rightarrow> Inr (float_sub 1 ratio))))"

text \<open>
  What one run of the inner loop appends: \<open>missing ps xs\<close> lists, in order and once each,
  the elements of \<open>xs\<close> that are not in \<open>ps\<close>. It serves to state what the repair loop
  does to a list object.
\<close>

fun missing :: "'a list \<Rightarrow> 'a list \<Rightarrow> 'a list" where
  "missing ps [] = []"
| "missing ps (x # xs) = (if x \<in> set ps then missing ps xs else x # missing (ps @ [x]) xs)"

text \<open>
  A store given by the list objects it holds: address \<open>i\<close> holds the \<open>i\<close>-th list, every
  other address an empty list. It serves to write concrete stores.
\<close>

definition heap_of :: "pair list list \<Rightarrow> heap" where
  "heap_of objs a = (if a < length objs then objs ! a else [])"

section \<open>Python dictionaries and counters (preprocessing.py)\<close>

text \<open>
  A Python \<open>dict\<close> keeps its keys in insertion order, and the vocabulary builder depends
  on that order, so a dictionary is an association list. \<open>dict_set k v d\<close> is
  \<^verbatim>\<open>d[k] = v\<close>: a key already present keeps its place and takes the new value, a new key
  goes to the end. \<open>map_of d k\<close> is the lookup, \<open>None\<close> when \<^verbatim>\<open>k not in d\<close>.
  A \<open>char\<close> stands for one character of a Python \<open>str\<close>.
\<close>

type_synonym ('k, 'v) dict = "('k \<times> 'v) list"

fun dict_set :: "'k \<Rightarrow> 'v \<Rightarrow> ('k, 'v) dict \<Rightarrow> ('k, 'v) dict" where
  "dict_set k v [] = [(k, v)]"
| "dict_set k v ((k', v') # d) =
     (if k' = k then (k, v) # d else (k', v') # dict_set k v d)"

text \<open>
  \<^verbatim>\<open>counter[word] += 1\<close> on a \<open>Counter\<close>: a missing key reads as 0 (the read does not
  insert it), then the sum is stored.
\<close>

definition counter_incr :: "string \<Rightarrow> (string, int) dict \<Rightarrow> (string, int) dict" where
  "counter_incr word counter =
     dict_set word ((case map_of counter word of None \<Rightarrow> 0 | Some n \<Rightarrow> n) + 1) counter"

text \<open>
  \<open>Counter.most_common(None)\<close> is \<^verbatim>\<open>sorted(self.items(), key=itemgetter(1), reverse=True)\<close>:
  a stable sort by descending count, items of equal count staying in insertion order.
  \<open>sort_key\<close> is a stable insertion sort, here on the negated count.
\<close>

definition most_common :: "(string, int) dict \<Rightarrow> (string \<times> int) list" where
  "most_common counter = sort_key (\<lambda>item. - snd item) counter"

definition enumerate_list :: "'a list \<Rightarrow> (int \<times> 'a) list" where
  "enumerate_list xs = zip (map int [0..<length xs]) xs"

section \<open>\<open>get_token_to_index\<close> (preprocessing.py, lines 88--117)\<close>

text \<open>Lines 104--108: both counters are filled in one scan of the corpus.\<close>

fun count_tokens ::
  "SentencePair list \<Rightarrow> (string, int) dict \<times> (string, int) dict
     \<Rightarrow> (string, int) dict \<times> (string, int) dict" where
  "count_tokens [] (en_counter, cz_counter) = (en_counter, cz_counter)"
| "count_tokens (sent_pair # rest) (en_counter, cz_counter) =
     count_tokens rest
       (fold counter_incr (source sent_pair) en_counter,
        fold counter_incr (target sent_pair) cz_counter)"

text \<open>
  Lines 111--112, \<^verbatim>\<open>{word[0]: ind for ind, word in enumerate(en_counter)}\<close>. Iterating a
  counter yields its keys, so \<open>word\<close> is a token and \<open>word[0]\<close> is its first character, a
  string of length one; on the empty string the index raises \<open>IndexError\<close>.
\<close>

fun vocab_of_keys ::
  "(int \<times> string) list \<Rightarrow> (string, int) dict \<Rightarrow> error + (string, int) dict" where
  "vocab_of_keys [] vocab = Inr vocab"
| "vocab_of_keys ((ind, word) # rest) vocab =
     (case word of
        [] \<Rightarrow> Inl IndexError
      | c # _ \<Rightarrow> vocab_of_keys rest (dict_set [c] ind vocab))"

text \<open>
  Lines 114--115, \<^verbatim>\<open>{word[0]: ind for ind, word in enumerate(en_counter.most_common(freq_cutoff))}\<close>.
  Here \<open>word\<close> is an item \<open>(token, count)\<close> and \<open>word[0]\<close> is the token.
\<close>

definition vocab_of_items :: "(int \<times> (string \<times> int)) list \<Rightarrow> (string, int) dict" where
  "vocab_of_items items = fold (\<lambda>(ind, word). dict_set (fst word) ind) items []"

text \<open>
  The branch taken for a cutoff (\<^verbatim>\<open>freq_cutoff is not None\<close>) does not read the cutoff; the
  other branch runs with \<open>freq_cutoff = None\<close>, so its call is \<open>most_common(None)\<close>.
\<close>

definition get_token_to_index ::
  "SentencePair list \<Rightarrow> int option
     \<Rightarrow> error + ((string, int) dict \<times> (string, int) dict)" where
  "get_token_to_index sentence_pairs freq_cutoff =
     (case count_tokens sentence_pairs ([], []) of
        (en_counter, cz_counter) \<Rightarrow>
          if freq_cutoff \<noteq> None
          then (case vocab_of_keys (enumerate_list (map fst en_counter)) [] of
                  Inl e \<Rightarrow> Inl e
                | Inr en_vocab \<Rightarrow>
                    (case vocab_of_keys (enumerate_list (map fst cz_counter)) [] of
                       Inl e \<Rightarrow> Inl e
                     | Inr cz_vocab \<Rightarrow> Inr (en_vocab, cz_vocab)))
          else Inr (vocab_of_items (enumerate_list (most_common en_counter)),
                    vocab_of_items (enumerate_list (most_common cz_counter))))"

text \<open>
  For stating the order of a vocabulary: the distinct tokens of a scan in the order they
  are first seen, and the same tokens stably sorted by descending number of occurrences,
  numbered from 0.
\<close>

definition first_seen :: "string list \<Rightarrow> string list" where
  "first_seen toks = missing [] toks"

definition vocab_by_frequency :: "string list \<Rightarrow> (string, int) dict" where
  "vocab_by_frequency toks =
     (let ranked = sort_key (\<lambda>w. - int (count_list toks w)) (first_seen toks)
      in zip ranked (map int [0..<length ranked]))"

text \<open>
  The vocabulary the specification describes for \<open>freq_cutoff = None\<close>: the distinct tokens
  in first-seen order, numbered from 0. The source does not compute it; it is here to be
  compared with what the source computes.
\<close>

definition spec_vocab_first_seen :: "string list \<Rightarrow> (string, int) dict" where
  "spec_vocab_first_seen toks = zip (first_seen toks) (map int [0..<length (first_seen toks)])"

section \<open>\<open>tokenize_sents\<close> (preprocessing.py, lines 120--142)\<close>

text \<open>
  \<^verbatim>\<open>[source_dict[word] for word in sent_pair.source if word in source_dict]\<close> is
  \<open>List.map_filter (map_of source_dict)\<close>: the values of the tokens that are keys, in
  order. The array's \<open>size\<close> is the length of that list.
\<close>

fun tokenize_loop ::
  "SentencePair list \<Rightarrow> (string, int) dict \<Rightarrow> (string, int) dict
     \<Rightarrow> TokenizedSentencePair list \<Rightarrow> TokenizedSentencePair list" where
  "tokenize_loop [] source_dict target_dict ans = ans"
| "tokenize_loop (sent_pair # rest) source_dict target_dict ans =
     (let new_src = List.map_filter (map_of source_dict) (source sent_pair);
          new_trg = List.map_filter (map_of target_dict) (target sent_pair)
      in tokenize_loop rest source_dict target_dict
           (if length new_src > 0 \<and> length new_trg > 0
            then ans @ [\<lparr>source_tokens = new_src, target_tokens = new_trg\<rparr>]
            else ans))"

definition tokenize_sents ::
  "SentencePair list \<Rightarrow> (string, int) dict \<Rightarrow> (string, int) dict
     \<Rightarrow> TokenizedSentencePair list" where
  "tokenize_sents sentence_pairs source_dict target_dict =
     tokenize_loop sentence_pairs source_dict target_dict []"

section \<open>Strings (preprocessing.py, lines 54, 67--79)\<close>

text \<open>
  \<open>str.replace(old, new)\<close> for a pattern of one character, as in
  \<^verbatim>\<open>filedata.replace('&', '&amp;')\<close>: every occurrence is replaced.
\<close>

fun str_replace :: "char \<Rightarrow> string \<Rightarrow> string \<Rightarrow> string" where
  "str_replace old new [] = []"
| "str_replace old new (c # cs) =
     (if c = old then new @ str_replace old new cs else c # str_replace old new cs)"

text \<open>
  The characters \<open>str.split()\<close> and \<open>int()\<close> treat as whitespace, among those below 256:
  tab to carriage return, the separators 28 to 31, space, NEL and the no-break space.
\<close>

definition isspace :: "char \<Rightarrow> bool" where
  "isspace c = ((of_char c :: nat) \<in> {9, 10, 11, 12, 13, 28, 29, 30, 31, 32, 133, 160})"

text \<open>
  \<open>str.split()\<close> without a separator: the maximal runs of non-whitespace characters.
  \<open>cur\<close> is the run being read.
\<close>

fun split_ws :: "string \<Rightarrow> string \<Rightarrow> string list" where
  "split_ws cur [] = (if cur = [] then [] else [cur])"
| "split_ws cur (c # cs) =
     (if isspace c
      then (if cur = [] then split_ws [] cs else cur # split_ws [] cs)
      else split_ws (cur @ [c]) cs)"

definition str_split :: "string \<Rightarrow> string list" where
  "str_split s = split_ws [] s"

text \<open>
  \<open>str.split(sep)\<close> for a separator of one character, as in \<^verbatim>\<open>pair.split('-')\<close>: the
  pieces between the separators, empty pieces kept.
\<close>

fun split_on :: "char \<Rightarrow> string \<Rightarrow> string \<Rightarrow> string list" where
  "split_on sep cur [] = [cur]"
| "split_on sep cur (c # cs) =
     (if c = sep then cur # split_on sep [] cs else split_on sep (cur @ [c]) cs)"

text \<open>
  \<open>int(s)\<close> for a string, in base 10: surrounding whitespace is stripped, then an optional
  sign, then decimal digits, where single underscores may stand between digits. Anything
  else raises \<open>ValueError\<close>, and so does a literal of more than 4300 digits (the default
  of \<open>sys.int_info.default_max_str_digits\<close>). The whitespace \<open>int\<close> strips is not that of
  \<open>str.split\<close>: a character below 127 is stripped when it is a C whitespace character
  (tab to carriage return, space), so the separators 28 to 31 are not; a character above
  is stripped when it is Unicode whitespace (NEL and the no-break space, below 256).
\<close>

definition isdigit :: "char \<Rightarrow> bool" where
  "isdigit c = (48 \<le> (of_char c :: nat) \<and> (of_char c :: nat) \<le> 57)"

definition digit_val :: "char \<Rightarrow> int" where
  "digit_val c = int (of_char c) - 48"

fun parse_digits :: "int \<Rightarrow> string \<Rightarrow> int option" where
  "parse_digits acc [] = Some acc"
| "parse_digits acc [c] = (if isdigit c then Some (10 * acc + digit_val c) else None)"
| "parse_digits acc (c # d # cs) =
     (if isdigit c then parse_digits (10 * acc + digit_val c) (d # cs)
      else if c = CHR ''_'' \<and> isdigit d then parse_digits (10 * acc + digit_val d) cs
      else None)"

definition parse_unsigned :: "string \<Rightarrow> int option" where
  "parse_unsigned s =
     (case s of
        [] \<Rightarrow> None
      | c # cs \<Rightarrow> if isdigit c then parse_digits (digit_val c) cs else None)"

definition int_isspace :: "char \<Rightarrow> bool" where
  "int_isspace c = ((of_char c :: nat) \<in> {9, 10, 11, 12, 13, 32, 133, 160})"

definition int_strip :: "string \<Rightarrow> string" where
  "int_strip s = rev (dropWhile int_isspace (rev (dropWhile int_isspace s)))"

definition int_max_str_digits :: nat where
  "int_max_str_digits = 4300"

definition py_int :: "string \<Rightarrow> error + int" where
  "py_int s =
     (case int_strip s of
        [] \<Rightarrow> Inl ValueError
      | c # cs \<Rightarrow>
          (let body = (if c = CHR ''-'' \<or> c = CHR ''+'' then cs else c # cs)
           in case parse_unsigned body of
                None \<Rightarrow> Inl ValueError
              | Some n \<Rightarrow>
                  if int_max_str_digits < length (filter isdigit body) then Inl ValueError
                  else Inr (if c = CHR ''-'' then - n else n)))"

text \<open>A list comprehension whose body can raise: the first error ends it.\<close>

fun traverse :: "('a \<Rightarrow> error + 'b) \<Rightarrow> 'a list \<Rightarrow> error + 'b list" where
  "traverse f [] = Inr []"
| "traverse f (x # xs) =
     (case f x of
        Inl e \<Rightarrow> Inl e
      | Inr y \<Rightarrow> (case traverse f xs of Inl e \<Rightarrow> Inl e | Inr ys \<Rightarrow> Inr (y # ys)))"

section \<open>\<open>extract_sentences\<close> (preprocessing.py, lines 38--84)\<close>

text \<open>
  An element of the parsed tree, as \<open>xml.etree.ElementTree\<close> gives it: its tag, its
  \<open>text\<close> (\<open>None\<close> when the element has no character data before its first child) and its
  children. \<open>find_child\<close> is \<open>Element.find\<close> with a plain tag name: the first child with
  that tag, or \<open>None\<close>.
\<close>

datatype Element = Element (elem_tag: string) (elem_text: "string option") (elem_children: "Element list")

definition find_child :: "string \<Rightarrow> Element \<Rightarrow> Element option" where
  "find_child name el = List.find (\<lambda>child. elem_tag child = name) (elem_children el)"

text \<open>
  Lines 77 and 79, \<^verbatim>\<open>[tuple(map(int, pair.split('-'))) for pair in sure_element.split()]\<close>.
  A tuple is built from however many pieces the token has, so a tuple is a list of
  integers here.
\<close>

definition parse_alignments :: "string \<Rightarrow> error + int list list" where
  "parse_alignments element_text =
     traverse (\<lambda>pair. traverse py_int (split_on (CHR ''-'') [] pair)) (str_split element_text)"

text \<open>
  Lines 67--82, the body of the loop over the children of the root, for one child: the
  sentence pair and the labeled alignment it appends. Reading \<open>.text\<close> of a missing
  child, or splitting a \<open>text\<close> that is \<open>None\<close>, raises \<open>AttributeError\<close>.
\<close>

definition extract_record ::
  "Element \<Rightarrow> error + (SentencePair \<times> (int list list) LabeledAlignment)" where
  "extract_record s_element =
     (case find_child ''english'' s_element of
        None \<Rightarrow> Inl AttributeError
      | Some english \<Rightarrow>
     (case elem_text english of
        None \<Rightarrow> Inl AttributeError
      | Some english_text \<Rightarrow>
     (case find_child ''czech'' s_element of
        None \<Rightarrow> Inl AttributeError
      | Some czech \<Rightarrow>
     (case elem_text czech of
        None \<Rightarrow> Inl AttributeError
      | Some czech_text \<Rightarrow>
     (case find_child ''sure'' s_element of
        None \<Rightarrow> Inl AttributeError
      | Some sure_child \<Rightarrow>
     (case find_child ''possible'' s_element of
        None \<Rightarrow> Inl AttributeError
      | Some possible_child \<Rightarrow>
     (case (case elem_text sure_child of
              None \<Rightarrow> Inr []
            | Some sure_element \<Rightarrow> parse_alignments sure_element) of
        Inl e \<Rightarrow> Inl e
      | Inr sure_alignments \<Rightarrow>
     (case (case elem_text possible_child of
              None \<Rightarrow> Inr []
            | Some possible_element \<Rightarrow> parse_alignments possible_element) of
        Inl e \<Rightarrow> Inl e
      | Inr possible_alignments \<Rightarrow>
          Inr (\<lparr>source = str_split english_text, target = str_split czech_text\<rparr>,
               \<lparr>sure = sure_alignments, possible = possible_alignments\<rparr>)))))))))"

text \<open>Lines 66--82, the loop \<^verbatim>\<open>for s_element in root\<close>; the first error ends the load.\<close>

fun extract_loop ::
  "Element list \<Rightarrow> SentencePair list \<times> (int list list) LabeledAlignment list
     \<Rightarrow> error + (SentencePair list \<times> (int list list) LabeledAlignment list)" where
  "extract_loop [] (sentence_pairs, alignments) = Inr (sentence_pairs, alignments)"
| "extract_loop (s_element # rest) (sentence_pairs, alignments) =
     (case extract_record s_element of
        Inl e \<Rightarrow> Inl e
      | Inr (sentence_pair, labeled_alignment) \<Rightarrow>
          extract_loop rest
            (sentence_pairs @ [sentence_pair], alignments @ [labeled_alignment]))"

text \<open>
  Text files. A file system maps the name of a file to its bytes; a name it does not map
  is a missing file, and every file it holds can be read and written. \<open>open\<close> in text mode
  decodes and encodes with the platform's encoding and writes the platform's line
  separator: these are the parameters \<open>decode\<close> and \<open>encode\<close> (\<open>None\<close> where the codec
  raises) and \<open>linesep\<close>. The characters of a text are limited to those below 256, the
  range of \<open>char\<close>.
\<close>

record text_io =
  decode :: "string \<Rightarrow> string option"
  encode :: "string \<Rightarrow> string option"
  linesep :: string

text \<open>
  Reading in text mode with the default \<open>newline=None\<close>: after decoding, \<open>CR LF\<close> and a
  lone \<open>CR\<close> become \<open>LF\<close>.
\<close>

fun universal_newlines :: "string \<Rightarrow> string" where
  "universal_newlines [] = []"
| "universal_newlines [c] = (if c = CHR 0x0D then [CHR 0x0A] else [c])"
| "universal_newlines (c # d # cs) =
     (if c = CHR 0x0D
      then (if d = CHR 0x0A then CHR 0x0A # universal_newlines cs
            else CHR 0x0A # universal_newlines (d # cs))
      else c # universal_newlines (d # cs))"

text \<open>Lines 51--52, \<^verbatim>\<open>open(filename, 'r')\<close> and \<^verbatim>\<open>file.read()\<close>.\<close>

definition read_text :: "text_io \<Rightarrow> (string \<rightharpoonup> string) \<Rightarrow> string \<Rightarrow> error + string" where
  "read_text io fs filename =
     (case fs filename of
        None \<Rightarrow> Inl FileNotFoundError
      | Some file_bytes \<Rightarrow>
          (case decode io file_bytes of
             None \<Rightarrow> Inl UnicodeDecodeError
           | Some chars \<Rightarrow> Inr (universal_newlines chars)))"

text \<open>
  Lines 56--57, \<^verbatim>\<open>open(filename, 'w')\<close> and \<^verbatim>\<open>file.write(filedata)\<close>. Opening empties the
  file; then every \<open>LF\<close> is written as the line separator and the text is encoded. When
  the codec raises, the file stays empty.
\<close>

definition write_text ::
  "text_io \<Rightarrow> (string \<rightharpoonup> string) \<Rightarrow> string \<Rightarrow> string \<Rightarrow> (string \<rightharpoonup> string) \<times> (error + unit)" where
  "write_text io fs filename filedata =
     (case encode io (str_replace (CHR 0x0A) (linesep io) filedata) of
        None \<Rightarrow> (fs(filename \<mapsto> []), Inl UnicodeEncodeError)
      | Some file_bytes \<Rightarrow> (fs(filename \<mapsto> file_bytes), Inr ()))"

text \<open>
  \<open>extract_sentences\<close>. The XML parser is a parameter: \<open>ET_parse\<close> maps the bytes of a
  file to the root of its tree or to an error. The function returns the file system it
  leaves behind and its result; the file is rewritten before it is parsed, so it stays
  rewritten when parsing or loading fails.
\<close>

definition extract_sentences ::
  "text_io \<Rightarrow> (string \<Rightarrow> error + Element) \<Rightarrow> (string \<rightharpoonup> string) \<Rightarrow> string
     \<Rightarrow> (string \<rightharpoonup> string) \<times> (error + (SentencePair list \<times> (int list list) LabeledAlignment list))" where
  "extract_sentences io ET_parse fs filename =
     (case read_text io fs filename of
        Inl e \<Rightarrow> (fs, Inl e)
      | Inr filedata \<Rightarrow>
          (case write_text io fs filename (str_replace (CHR ''&'') ''&amp;'' filedata) of
             (fs', Inl e) \<Rightarrow> (fs', Inl e)
           | (fs', Inr _) \<Rightarrow>
               (fs',
                case fs' filename of
                  None \<Rightarrow> Inl FileNotFoundError
                | Some file_bytes \<Rightarrow>
                    (case ET_parse file_bytes of
                       Inl e \<Rightarrow> Inl e
                     | Inr root_element \<Rightarrow> extract_loop (elem_children root_element) ([], [])))))"






section \<open>Binary64 rounding\<close>

lemma round_half_even_le: "x \<le> of_int N \<Longrightarrow> round_half_even x \<le> N"
proof -
  assume le: "x \<le> of_int N"
  have fl: "\<lfloor>x\<rfloor> \<le> N" using le by (simp add: floor_le_iff)
  show ?thesis
  proof (cases "\<lfloor>x\<rfloor> = N")
    case True
    then have "x - of_int \<lfloor>x\<rfloor> \<le> 0" using le by simp
    then show ?thesis using True by (simp add: round_half_even_def Let_def)
  next
    case False
    with fl have "\<lfloor>x\<rfloor> + 1 \<le> N" by simp
    then show ?thesis using fl by (simp add: round_half_even_def Let_def)
  qed
qed

lemma round_half_even_ge: "of_int N \<le> x \<Longrightarrow> N \<le> round_half_even x"
proof -
  assume "of_int N \<le> x"
  then have "N \<le> \<lfloor>x\<rfloor>" by (simp add: le_floor_iff)
  then show ?thesis by (simp add: round_half_even_def Let_def)
qed

lemma ilog2_bounds:
  assumes "0 < a"
  shows "2 powi (ilog2 a) \<le> a" and "a < 2 powi (ilog2 a + 1)"
proof -
  obtain n d where q: "quotient_of a = (n, d)" by (cases "quotient_of a")
  then have d: "0 < d" by (rule quotient_of_denom_pos)
  from q have a: "a = of_int n / of_int d" by (rule quotient_of_div)
  with assms d have n: "0 < n" by (simp add: zero_less_divide_iff)
  let ?k = "bitlen n - bitlen d"
  from bitlen_bounds [OF n] have n1: "2 ^ nat (bitlen n - 1) \<le> n" and n2: "n < 2 ^ nat (bitlen n)"
    by simp_all
  from bitlen_bounds [OF d] have d1: "2 ^ nat (bitlen d - 1) \<le> d" and d2: "d < 2 ^ nat (bitlen d)"
    by simp_all
  have bn: "1 \<le> bitlen n" using n by (simp add: bitlen_alt_def)
  have bd: "1 \<le> bitlen d" using d by (simp add: bitlen_alt_def)
  have rn1: "(2::rat) powi (bitlen n - 1) \<le> of_int n"
  proof -
    have "(2::rat) powi (bitlen n - 1) = of_int (2 ^ nat (bitlen n - 1))"
      using bn by (simp add: power_int_nonneg_exp)
    also have "\<dots> \<le> of_int n" using n1 by (simp only: of_int_le_iff)
    finally show ?thesis .
  qed
  have rn2: "of_int n < (2::rat) powi (bitlen n)"
  proof -
    have "(of_int n :: rat) < of_int (2 ^ nat (bitlen n))" using n2 by (simp only: of_int_less_iff)
    also have "\<dots> = (2::rat) powi (bitlen n)"
      using bn by (simp add: power_int_nonneg_exp)
    finally show ?thesis .
  qed
  have rd1: "(2::rat) powi (bitlen d - 1) \<le> of_int d"
  proof -
    have "(2::rat) powi (bitlen d - 1) = of_int (2 ^ nat (bitlen d - 1))"
      using bd by (simp add: power_int_nonneg_exp)
    also have "\<dots> \<le> of_int d" using d1 by (simp only: of_int_le_iff)
    finally show ?thesis .
  qed
  have rd2: "of_int d < (2::rat) powi (bitlen d)"
  proof -
    have "(of_int d :: rat) < of_int (2 ^ nat (bitlen d))" using d2 by (simp only: of_int_less_iff)
    also have "\<dots> = (2::rat) powi (bitlen d)"
      using bd by (simp add: power_int_nonneg_exp)
    finally show ?thesis .
  qed
  have dpos: "(0::rat) < of_int d" using d by simp
  have lower: "(2::rat) powi (?k - 1) < a"
  proof -
    have "(2::rat) powi (?k - 1) * of_int d < 2 powi (?k - 1) * 2 powi (bitlen d)"
      using rd2 by (simp add: mult_strict_left_mono)
    also have "\<dots> = 2 powi (bitlen n - 1)"
      by (simp flip: power_int_add)
    also have "\<dots> \<le> of_int n" by (rule rn1)
    finally have "(2::rat) powi (?k - 1) * of_int d < of_int n" .
    then show ?thesis using dpos by (simp add: a pos_less_divide_eq)
  qed
  have upper: "a < (2::rat) powi (?k + 1)"
  proof -
    have "(of_int n :: rat) < 2 powi (bitlen n)" by (rule rn2)
    also have "\<dots> = 2 powi (?k + 1) * 2 powi (bitlen d - 1)"
      by (simp flip: power_int_add)
    also have "\<dots> \<le> 2 powi (?k + 1) * of_int d"
      using rd1 by (simp add: mult_left_mono)
    finally have "(of_int n :: rat) < 2 powi (?k + 1) * of_int d" .
    then show ?thesis using dpos by (simp add: a pos_divide_less_eq)
  qed
  show "2 powi (ilog2 a) \<le> a"
    using lower by (simp add: ilog2_def q Let_def)
  show "a < 2 powi (ilog2 a + 1)"
  proof (cases "(2::rat) powi ?k \<le> a")
    case True
    then show ?thesis using upper by (simp add: ilog2_def q Let_def)
  next
    case False
    then show ?thesis by (simp add: ilog2_def q Let_def)
  qed
qed


lemma round_half_even_nonneg: "0 \<le> x \<Longrightarrow> 0 \<le> round_half_even x"
  using round_half_even_ge [of 0 x] by simp

lemma nearest_pos_nonneg:
  assumes "0 < a"
  shows "0 \<le> binary64_nearest a"
proof -
  let ?q = "max (ilog2 a) (- 1022) - 52"
  have "0 \<le> a / 2 powi ?q" using assms by simp
  then have "0 \<le> round_half_even (a / 2 powi ?q)" by (rule round_half_even_nonneg)
  then have "(0::rat) \<le> of_int (round_half_even (a / 2 powi ?q)) * 2 powi ?q"
    by simp
  then show ?thesis using assms by (simp add: binary64_nearest_def Let_def)
qed

lemma nearest_minus: "binary64_nearest (- x) = - binary64_nearest x"
  by (simp add: binary64_nearest_def Let_def)

lemma nearest_nonneg: "0 \<le> x \<Longrightarrow> 0 \<le> binary64_nearest x"
  using nearest_pos_nonneg [of x] by (cases "x = 0") (simp_all add: binary64_nearest_def)

lemma nearest_nonpos: "x \<le> 0 \<Longrightarrow> binary64_nearest x \<le> 0"
  using nearest_nonneg [of "- x"] by (simp add: nearest_minus)

text \<open>The significand has at most 53 bits, or is \<open>2 ^ 53\<close> after rounding up.\<close>

lemma significand_le:
  assumes "0 < a"
  shows "round_half_even (a / 2 powi (max (ilog2 a) (- 1022) - 52)) \<le> 2 ^ 53"
proof -
  let ?e = "max (ilog2 a) (- 1022)"
  have "a < 2 powi (ilog2 a + 1)" using assms by (rule ilog2_bounds)
  also have "\<dots> \<le> 2 powi (?e + 1)" by (rule power_int_increasing) simp_all
  finally have "a < 2 powi (?e + 1)" .
  then have "a / 2 powi (?e - 52) < 2 powi (?e + 1) / 2 powi (?e - 52)"
    by (simp add: divide_strict_right_mono)
  also have "(2::rat) powi (?e + 1) / 2 powi (?e - 52) = 2 powi 53"
    by (simp flip: power_int_diff)
  finally have "a / 2 powi (?e - 52) \<le> of_int (2 ^ 53)" by simp
  then show ?thesis by (rule round_half_even_le)
qed

lemma nearest_pos_le:
  assumes "0 < a"
  shows "binary64_nearest a \<le> 2 powi (max (ilog2 a) (- 1022) + 1)"
proof -
  let ?e = "max (ilog2 a) (- 1022)"
  let ?m = "round_half_even (a / 2 powi (?e - 52))"
  have "(of_int ?m :: rat) \<le> of_int (2 ^ 53)"
    using significand_le [OF assms] by (simp only: of_int_le_iff)
  then have "(of_int ?m :: rat) * 2 powi (?e - 52) \<le> of_int (2 ^ 53) * 2 powi (?e - 52)"
    by (rule mult_right_mono) simp
  also have "(of_int (2 ^ 53) :: rat) * 2 powi (?e - 52) = 2 powi (?e + 1)"
  proof -
    have "(2::rat) powi (?e + 1) = 2 powi (53 + (?e - 52))"
      by (rule arg_cong [where f = "power_int 2"]) simp
    also have "\<dots> = 2 powi 53 * 2 powi (?e - 52)" by (rule power_int_add) simp
    finally show ?thesis by simp
  qed
  finally show ?thesis using assms by (simp add: binary64_nearest_def Let_def)
qed

lemma nearest_le_one:
  assumes "x \<le> 1"
  shows "binary64_nearest x \<le> 1"
proof (cases "0 < x")
  case False
  then have "binary64_nearest x \<le> 0" by (intro nearest_nonpos) simp
  then show ?thesis by simp
next
  case True
  have "2 powi (ilog2 x) \<le> x" using True by (rule ilog2_bounds)
  with assms have "(2::rat) powi (ilog2 x) \<le> 2 powi 0" by simp
  then have "ilog2 x \<le> 0"
    using power_int_le_imp_le_exp [of "2::rat" "ilog2 x" 0] by simp
  show ?thesis
  proof (cases "x = 1")
    case True
    show ?thesis unfolding True by code_simp
  next
    case False
    with assms have lt: "x < 1" by simp
    have "ilog2 x < 0"
    proof (rule ccontr)
      assume "\<not> ilog2 x < 0"
      with \<open>ilog2 x \<le> 0\<close> have "ilog2 x = 0" by simp
      with \<open>2 powi (ilog2 x) \<le> x\<close> lt show False by simp
    qed
    then have "max (ilog2 x) (- 1022) + 1 \<le> 0" by simp
    then have "(2::rat) powi (max (ilog2 x) (- 1022) + 1) \<le> 2 powi 0"
      by (intro power_int_increasing) simp_all
    with nearest_pos_le [OF True] show ?thesis by simp
  qed
qed


lemma significand_ge:
  assumes "0 < a" and "- 1022 \<le> ilog2 a"
  shows "2 ^ 52 \<le> round_half_even (a / 2 powi (ilog2 a - 52))"
proof -
  have "(2::rat) powi 52 * 2 powi (ilog2 a - 52) = 2 powi (52 + (ilog2 a - 52))"
    by (rule power_int_add [symmetric]) simp
  also have "\<dots> = 2 powi (ilog2 a)"
    by (rule arg_cong [where f = "power_int 2"]) simp
  also have "\<dots> \<le> a" using assms(1) by (rule ilog2_bounds)
  finally have "(2::rat) powi 52 \<le> a / 2 powi (ilog2 a - 52)"
    by (simp add: pos_le_divide_eq)
  then have "of_int (2 ^ 52) \<le> a / 2 powi (ilog2 a - 52)" by simp
  then show ?thesis by (rule round_half_even_ge)
qed

lemma nearest_pos_le_max:
  assumes "0 < a" and "a \<le> binary64_max"
  shows "binary64_nearest a \<le> binary64_max"
proof (cases "max (ilog2 a) (- 1022) \<le> 1022")
  case True
  then have "(2::rat) powi (max (ilog2 a) (- 1022) + 1) \<le> 2 powi 1023"
    by (intro power_int_increasing) simp_all
  with nearest_pos_le [OF assms(1)] have "binary64_nearest a \<le> 2 powi 1023" by simp
  also have "(2::rat) powi 1023 \<le> binary64_max" by (simp add: binary64_max_def)
  finally show ?thesis .
next
  case False
  then have big: "1023 \<le> ilog2 a" by simp
  have "2 powi (ilog2 a) \<le> a" using assms(1) by (rule ilog2_bounds)
  also have "a < 2 powi 1024" using assms(2) by (simp add: binary64_max_def)
  finally have "ilog2 a < 1024"
    using power_int_le_imp_less_exp [of "2::rat" "ilog2 a" 1024] by simp
  with big have e: "ilog2 a = 1023" by simp
  have "a / 2 powi 971 \<le> binary64_max / 2 powi 971"
    using assms(2) by (simp add: divide_right_mono)
  also have "binary64_max / 2 powi 971 = of_int (2 ^ 53 - 1)"
    by (simp add: binary64_max_def)
  finally have "round_half_even (a / 2 powi 971) \<le> 2 ^ 53 - 1"
    by (rule round_half_even_le)
  then have "(of_int (round_half_even (a / 2 powi 971)) :: rat) \<le> of_int (2 ^ 53 - 1)"
    by (simp only: of_int_le_iff)
  then have "(of_int (round_half_even (a / 2 powi 971)) :: rat) * 2 powi 971
      \<le> of_int (2 ^ 53 - 1) * 2 powi 971"
    by (rule mult_right_mono) simp
  also have "(of_int (2 ^ 53 - 1) :: rat) * 2 powi 971 = binary64_max"
    by (simp add: binary64_max_def)
  finally show ?thesis using assms(1) e by (simp add: binary64_nearest_def Let_def)
qed

lemma nearest_abs_le_max: "\<bar>x\<bar> \<le> binary64_max \<Longrightarrow> \<bar>binary64_nearest x\<bar> \<le> binary64_max"
proof -
  assume le: "\<bar>x\<bar> \<le> binary64_max"
  have max0: "0 \<le> binary64_max" by (simp add: binary64_max_def)
  consider "x = 0" | "0 < x" | "x < 0" by linarith
  then show ?thesis
  proof cases
    case 1
    then show ?thesis using max0 by (simp add: binary64_nearest_def)
  next
    case 2
    with le have "binary64_nearest x \<le> binary64_max" by (intro nearest_pos_le_max) simp_all
    moreover have "0 \<le> binary64_nearest x" using 2 by (rule nearest_pos_nonneg)
    ultimately show ?thesis by simp
  next
    case 3
    with le have "binary64_nearest (- x) \<le> binary64_max" by (intro nearest_pos_le_max) simp_all
    moreover have "0 \<le> binary64_nearest (- x)" using 3 by (intro nearest_pos_nonneg) simp
    ultimately show ?thesis by (simp add: nearest_minus)
  qed
qed

lemma not_overflow_le_max:
  assumes "0 \<le> x" and "\<not> binary64_overflow x"
  shows "binary64_nearest x \<le> binary64_max"
proof (cases "x = 0")
  case True
  then show ?thesis by (simp add: binary64_nearest_def binary64_max_def)
next
  case False
  with assms(1) have pos: "0 < x" by simp
  have nn: "0 \<le> binary64_nearest x" using pos by (rule nearest_pos_nonneg)
  with assms(2) have fin: "binary64_nearest x < 2 powi 1024"
    by (simp add: binary64_overflow_def)
  show ?thesis
  proof (cases "max (ilog2 x) (- 1022) \<le> 1022")
    case True
    then have "(2::rat) powi (max (ilog2 x) (- 1022) + 1) \<le> 2 powi 1023"
      by (intro power_int_increasing) simp_all
    with nearest_pos_le [OF pos] have "binary64_nearest x \<le> 2 powi 1023" by simp
    also have "(2::rat) powi 1023 \<le> binary64_max" by (simp add: binary64_max_def)
    finally show ?thesis .
  next
    case False
    then have big: "1023 \<le> ilog2 x" by simp
    then have q: "max (ilog2 x) (- 1022) = ilog2 x" by simp
    let ?m = "round_half_even (x / 2 powi (ilog2 x - 52))"
    have val: "binary64_nearest x = of_int ?m * 2 powi (ilog2 x - 52)"
      using pos by (simp add: binary64_nearest_def Let_def q)
    have m52: "2 ^ 52 \<le> ?m" using pos big by (intro significand_ge) simp_all
    have "(2::rat) powi (ilog2 x) = 2 powi (52 + (ilog2 x - 52))"
      by (rule arg_cong [where f = "power_int 2"]) simp
    also have "\<dots> = 2 powi 52 * 2 powi (ilog2 x - 52)"
      by (rule power_int_add) simp
    also have "\<dots> = of_int (2 ^ 52) * 2 powi (ilog2 x - 52)" by simp
    also have "\<dots> \<le> of_int ?m * 2 powi (ilog2 x - 52)"
      using m52 by (intro mult_right_mono) (simp_all only: of_int_le_iff, simp)
    also have "\<dots> < 2 powi 1024" using fin val by simp
    finally have "ilog2 x < 1024"
      using power_int_le_imp_less_exp [of "2::rat" "ilog2 x" 1024] by simp
    with big have e: "ilog2 x = 1023" by simp
    from fin val e have "(of_int ?m :: rat) * 2 powi 971 < 2 powi 1024" by simp
    then have "(of_int ?m :: rat) < 2 powi 1024 / 2 powi 971"
      by (simp add: pos_less_divide_eq)
    also have "(2::rat) powi 1024 / 2 powi 971 = of_int (2 ^ 53)" by simp
    finally have "?m < 2 ^ 53" by (simp only: of_int_less_iff)
    then have "?m \<le> 2 ^ 53 - 1" by simp
    then have "(of_int ?m :: rat) \<le> of_int (2 ^ 53 - 1)" by (simp only: of_int_le_iff)
    then have "(of_int ?m :: rat) * 2 powi 971 \<le> of_int (2 ^ 53 - 1) * 2 powi 971"
      by (rule mult_right_mono) simp
    also have "(of_int (2 ^ 53 - 1) :: rat) * 2 powi 971 = binary64_max"
      by (simp add: binary64_max_def)
    finally show ?thesis using val e by simp
  qed
qed

lemma float_sub_finite:
  assumes "0 \<le> x" and "\<not> binary64_overflow x"
  shows "\<not> binary64_overflow (1 - binary64_nearest x)"
proof -
  let ?y = "binary64_nearest x"
  have y0: "0 \<le> ?y" using assms(1) by (rule nearest_nonneg)
  have ymax: "?y \<le> binary64_max" using assms by (rule not_overflow_le_max)
  have "1 \<le> binary64_max" by (simp add: binary64_max_def)
  with y0 ymax have "\<bar>1 - ?y\<bar> \<le> binary64_max" by (simp add: abs_le_iff)
  then have "\<bar>binary64_nearest (1 - ?y)\<bar> \<le> binary64_max" by (rule nearest_abs_le_max)
  also have "binary64_max < 2 powi 1024" by (simp add: binary64_max_def)
  finally show ?thesis by (simp add: binary64_overflow_def)
qed


lemma round_half_even_error: "\<bar>of_int (round_half_even y) - y\<bar> \<le> 1 / 2"
proof -
  have "0 \<le> y - of_int \<lfloor>y\<rfloor>" and "y - of_int \<lfloor>y\<rfloor> < 1"
    by linarith+
  then show ?thesis
    by (auto simp: round_half_even_def Let_def abs_le_iff)
qed

lemma ulp_le:
  assumes "0 < a"
  shows "2 powi (max (ilog2 a) (- 1022) - 52) \<le> max (a / 2 ^ 52) (1 / 2 ^ 1074)"
proof (cases "- 1022 \<le> ilog2 a")
  case True
  then have "max (ilog2 a) (- 1022) = ilog2 a" by simp
  moreover have "(2::rat) powi (ilog2 a - 52) = 2 powi (ilog2 a) / 2 powi 52"
    by (rule power_int_diff) simp
  moreover have "2 powi (ilog2 a) \<le> a" using assms by (rule ilog2_bounds)
  then have "2 powi (ilog2 a) / 2 powi 52 \<le> a / 2 ^ 52"
    by (simp add: divide_right_mono)
  ultimately show ?thesis by (simp add: le_max_iff_disj)
next
  case False
  then have "max (ilog2 a) (- 1022) = - 1022" by simp
  then show ?thesis by (simp add: le_max_iff_disj power_int_minus_divide)
qed

lemma nearest_pos_error:
  assumes a: "0 < a"
  shows "\<bar>binary64_nearest a - a\<bar> \<le> max (a / 2 ^ 53) (1 / 2 ^ 1075)"
proof -
  let ?q = "max (ilog2 a) (- 1022) - 52"
  let ?m = "round_half_even (a / 2 powi ?q)"
  have pq: "(0::rat) < 2 powi ?q" by simp
  have val: "binary64_nearest a = of_int ?m * 2 powi ?q"
    using a by (simp add: binary64_nearest_def Let_def)
  have "of_int ?m * 2 powi ?q - a = (of_int ?m - a / 2 powi ?q) * 2 powi ?q"
    by (simp add: left_diff_distrib)
  then have "\<bar>binary64_nearest a - a\<bar> = \<bar>of_int ?m - a / 2 powi ?q\<bar> * 2 powi ?q"
    by (simp only: val abs_mult) simp
  also have "\<dots> \<le> 1 / 2 * 2 powi ?q"
    using round_half_even_error [of "a / 2 powi ?q"] pq by (intro mult_right_mono) simp_all
  also have "\<dots> \<le> 1 / 2 * max (a / 2 ^ 52) (1 / 2 ^ 1074)"
    using ulp_le [OF a] by (intro mult_left_mono) simp_all
  also have "\<dots> = max (a / 2 ^ 53) (1 / 2 ^ 1075)"
    by (simp add: max_def)
  finally show ?thesis .
qed

lemma nearest_error:
  "\<bar>binary64_nearest x - x\<bar> \<le> max (\<bar>x\<bar> / 2 ^ 53) (1 / 2 ^ 1075)"
proof -
  consider "x = 0" | "0 < x" | "x < 0" by linarith
  then show ?thesis
  proof cases
    case 1
    then show ?thesis by (simp add: binary64_nearest_def)
  next
    case 2
    with nearest_pos_error [of x] show ?thesis by simp
  next
    case 3
    then have "0 < - x" by simp
    from nearest_pos_error [OF this] have "\<bar>- binary64_nearest x + x\<bar> \<le> max (- x / 2 ^ 53) (1 / 2 ^ 1075)"
      by (simp add: nearest_minus)
    moreover have "\<bar>- binary64_nearest x + x\<bar> = \<bar>binary64_nearest x - x\<bar>"
      by (simp add: abs_minus_commute)
    ultimately show ?thesis using 3 by simp
  qed
qed

section \<open>The repair loop of \<open>compute_precision\<close>\<close>

lemma heap_of_simps [simp]:
  "heap_of (x # xs) 0 = x"
  "heap_of (x # xs) (Suc n) = heap_of xs n"
  "heap_of [] n = []"
  by (simp_all add: heap_of_def)

lemma heap_of_numeral [simp]: "heap_of (x # xs) (numeral k) = heap_of xs (pred_numeral k)"
  by (simp add: heap_of_def numeral_eq_Suc)

lemma set_missing: "set (missing ps xs) = set xs - set ps"
  by (induction xs arbitrary: ps) auto

lemma distinct_missing: "distinct (missing ps xs)"
  by (induction xs arbitrary: ps) (auto simp: set_missing)

lemma missing_Nil_iff: "missing ps xs = [] \<longleftrightarrow> set xs \<subseteq> set ps"
  by (induction xs arbitrary: ps) auto

lemma missing_append:
  "missing ps (xs @ ys) = missing ps xs @ missing (ps @ missing ps xs) ys"
  by (induction xs arbitrary: ps) auto

text \<open>
  The inner loop in closed form. When \<open>s = p\<close> (one list object in both fields) every
  pair read is found in the list, nothing is appended and the loop ends at the length the
  list had; the equation covers that case too, \<open>missing\<close> being empty there.
\<close>

lemma repair_sent_eq:
  "repair_sent h s p i = h(p := h p @ missing (h p) (drop i (h s)))"
proof (induction h s p i rule: repair_sent.induct)
  case (1 h s p i)
  show ?case
  proof (cases "i < length (h s)")
    case False
    then show ?thesis by (simp add: repair_sent.simps)
  next
    case lt: True
    then have dr: "drop i (h s) = h s ! i # drop (Suc i) (h s)"
      by (simp add: Cons_nth_drop_Suc)
    show ?thesis
    proof (cases "h s ! i \<in> set (h p)")
      case True
      with lt "1.IH"(1) dr show ?thesis
        by (simp add: repair_sent.simps [of h s p i])
    next
      case False
      with lt have ne: "s \<noteq> p" using nth_mem by blast
      let ?h' = "h(p := h p @ [h s ! i])"
      have "repair_sent h s p i = repair_sent ?h' s p (Suc i)"
        using False lt by (simp add: repair_sent.simps [of h s p i])
      also have "\<dots> = ?h'(p := ?h' p @ missing (?h' p) (drop (Suc i) (?h' s)))"
        using "1.IH"(2) [OF lt False] .
      also have "\<dots> = h(p := h p @ missing (h p) (drop i (h s)))"
        using False ne dr by simp
      finally show ?thesis .
    qed
  qed
qed

lemma repair_noop:
  "\<forall>sent\<in>set reference. set (h (sure sent)) \<subseteq> set (h (possible sent)) \<Longrightarrow> repair h reference = h"
proof (induction reference)
  case Nil
  then show ?case by simp
next
  case (Cons sent rest)
  then have "missing (h (possible sent)) (h (sure sent)) = []"
    by (simp add: missing_Nil_iff)
  then have "repair_sent h (sure sent) (possible sent) 0 = h"
    by (simp add: repair_sent_eq)
  with Cons show ?case by simp
qed

text \<open>The loop writes to \<open>possible\<close> lists only.\<close>

lemma repair_frame: "a \<notin> possible ` set reference \<Longrightarrow> repair h reference a = h a"
proof (induction reference arbitrary: h)
  case Nil
  then show ?case by simp
next
  case (Cons sent rest)
  then have "repair (repair_sent h (sure sent) (possible sent) 0) rest a
      = repair_sent h (sure sent) (possible sent) 0 a"
    by simp
  also have "\<dots> = h a"
    using Cons.prems by (auto simp: repair_sent_eq)
  finally show ?case by simp
qed

lemma repair_eq:
  assumes "sure ` set reference \<inter> possible ` set reference = {}"
  shows "repair h reference a =
     h a @ missing (h a) (concat (map (\<lambda>s. h (sure s)) (filter (\<lambda>s. possible s = a) reference)))"
  using assms
proof (induction reference arbitrary: h)
  case Nil
  then show ?case by simp
next
  case (Cons sent rest)
  let ?p = "possible sent" and ?s = "sure sent"
  let ?h1 = "h(?p := h ?p @ missing (h ?p) (h ?s))"
  have sep: "sure ` set rest \<inter> possible ` set rest = {}"
    using Cons.prems by auto
  have "sure r \<noteq> ?p" if "r \<in> set rest" for r
    using Cons.prems that by force
  then have unch: "\<And>r. r \<in> set rest \<Longrightarrow> ?h1 (sure r) = h (sure r)"
    by simp
  have maps: "map (\<lambda>s. ?h1 (sure s)) (filter (\<lambda>s. possible s = a) rest)
      = map (\<lambda>s. h (sure s)) (filter (\<lambda>s. possible s = a) rest)"
    by (rule map_cong) (auto simp: unch simp del: fun_upd_apply)
  have step: "repair h (sent # rest) a = repair ?h1 rest a"
    by (simp add: repair_sent_eq)
  have ih: "repair ?h1 rest a = ?h1 a @ missing (?h1 a)
      (concat (map (\<lambda>s. h (sure s)) (filter (\<lambda>s. possible s = a) rest)))"
    using Cons.IH [OF sep, of ?h1] by (simp only: maps)
  show ?case
  proof (cases "?p = a")
    case True
    with step ih show ?thesis by (simp add: missing_append)
  next
    case False
    with step ih show ?thesis by simp
  qed
qed

text \<open>Lists only grow, and an entry's \<open>sure\<close> pairs end up in its \<open>possible\<close> list.\<close>

lemma repair_sent_grows: "\<exists>ys. repair_sent h s p i a = h a @ ys"
  by (simp add: repair_sent_eq)

lemma repair_grows: "\<exists>ys. repair h reference a = h a @ ys"
proof (induction reference arbitrary: h)
  case Nil
  then show ?case by simp
next
  case (Cons sent rest)
  let ?h1 = "repair_sent h (sure sent) (possible sent) 0"
  from Cons.IH [of ?h1] obtain ys where "repair ?h1 rest a = ?h1 a @ ys" ..
  moreover from repair_sent_grows [of h "sure sent" "possible sent" 0 a]
  obtain zs where "?h1 a = h a @ zs" ..
  ultimately show ?case by simp
qed

lemma repair_sure_in_possible:
  "sent \<in> set reference \<Longrightarrow> set (h (sure sent)) \<subseteq> set (repair h reference (possible sent))"
proof (induction reference arbitrary: h)
  case Nil
  then show ?case by simp
next
  case (Cons x rest)
  let ?h1 = "repair_sent h (sure x) (possible x) 0"
  from Cons.prems have "sent = x \<or> sent \<in> set rest" by auto
  then show ?case
  proof
    assume eq: "sent = x"
    have "set (h (sure x)) \<subseteq> set (?h1 (possible x))"
      by (auto simp: repair_sent_eq set_missing)
    moreover from repair_grows [of ?h1 rest "possible x"]
    obtain ys where "repair ?h1 rest (possible x) = ?h1 (possible x) @ ys" ..
    ultimately show ?thesis using eq by auto
  next
    assume mem: "sent \<in> set rest"
    from repair_sent_grows [of h "sure x" "possible x" 0 "sure sent"]
    obtain zs where "?h1 (sure sent) = h (sure sent) @ zs" ..
    then have "set (h (sure sent)) \<subseteq> set (?h1 (sure sent))" by simp
    also have "\<dots> \<subseteq> set (repair ?h1 rest (possible sent))"
      using mem by (rule Cons.IH)
    finally show ?thesis by simp
  qed
qed

lemma fst_compute_precision: "fst (compute_precision h reference predicted) = repair h reference"
  by (simp add: compute_precision_def Let_def)

lemma fst_compute_aer: "fst (compute_aer h reference predicted) = repair h reference"
  by (simp add: compute_aer_def compute_precision_def Let_def split: prod.splits)

lemma compute_precision_cong:
  "repair h1 reference = repair h2 reference \<Longrightarrow>
   compute_precision h1 reference predicted = compute_precision h2 reference predicted"
  by (simp add: compute_precision_def)

lemma compute_aer_cong:
  "repair h1 reference = repair h2 reference \<Longrightarrow>
   compute_aer h1 reference predicted = compute_aer h2 reference predicted"
  by (simp add: compute_aer_def compute_precision_def)

lemma sure_subset_after_repair:
  assumes sep: "sure ` set reference \<inter> possible ` set reference = {}"
    and mem: "sent \<in> set reference"
  shows "set (repair h reference (sure sent)) \<subseteq> set (repair h reference (possible sent))"
proof -
  have "sure sent \<notin> possible ` set reference"
    using sep mem by blast
  then have s: "repair h reference (sure sent) = h (sure sent)"
    by (rule repair_frame)
  have "set (h (sure sent)) \<subseteq> set (concat (map (\<lambda>s. h (sure s))
      (filter (\<lambda>s. possible s = possible sent) reference)))"
    using mem by auto
  then have "set (h (sure sent)) \<subseteq> set (repair h reference (possible sent))"
    unfolding repair_eq [OF sep] set_append set_missing by blast
  with s show ?thesis by simp
qed

text \<open>
  Claim C3, as amended. Provided no list object is both the \<open>sure\<close> list of a reference
  entry and the \<open>possible\<close> list of a reference entry: after \<open>compute_precision\<close> returns,
  every pair of an entry's \<open>sure\<close> list is in its \<open>possible\<close> list; each \<open>possible\<close> list
  has been extended by exactly the pairs, once each and in order, of the \<open>sure\<close> lists of
  the entries holding it that it did not contain, and no other list has changed; and a
  second run of \<open>compute_precision\<close>, \<open>compute_recall\<close> or \<open>compute_aer\<close> on the store
  the first run left appends nothing and returns the same values.
\<close>

theorem repair_sure_subset_possible:
  assumes sep: "sure ` set reference \<inter> possible ` set reference = {}"
  shows "(let h' = fst (compute_precision h reference predicted) in
      (\<forall>sent\<in>set reference. set (h' (sure sent)) \<subseteq> set (h' (possible sent)))
    \<and> (\<forall>a. h' a = h a @ missing (h a)
          (concat (map (\<lambda>s. h (sure s)) (filter (\<lambda>s. possible s = a) reference))))
    \<and> (\<forall>ps xs :: pair list. set (missing ps xs) = set xs - set ps \<and> distinct (missing ps xs))
    \<and> compute_precision h' reference predicted = compute_precision h reference predicted
    \<and> compute_recall (fst (compute_precision h' reference predicted)) reference predicted
        = compute_recall h' reference predicted
    \<and> fst (compute_aer h reference predicted) = h'
    \<and> compute_aer h' reference predicted = compute_aer h reference predicted)"
proof -
  let ?h' = "repair h reference"
  have inv: "\<forall>sent\<in>set reference. set (?h' (sure sent)) \<subseteq> set (?h' (possible sent))"
    using sure_subset_after_repair [OF sep] by blast
  then have idem: "repair ?h' reference = ?h'"
    by (rule repair_noop)
  have app: "\<forall>a. ?h' a = h a @ missing (h a)
      (concat (map (\<lambda>s. h (sure s)) (filter (\<lambda>s. possible s = a) reference)))"
    using repair_eq [OF sep] by blast
  have p2: "compute_precision ?h' reference predicted = compute_precision h reference predicted"
    using idem by (rule compute_precision_cong)
  have r2: "compute_recall (repair ?h' reference) reference predicted
      = compute_recall ?h' reference predicted"
    by (simp only: idem)
  have a2: "compute_aer ?h' reference predicted = compute_aer h reference predicted"
    using idem by (rule compute_aer_cong)
  have mis: "\<forall>ps xs :: pair list. set (missing ps xs) = set xs - set ps \<and> distinct (missing ps xs)"
    by (simp add: set_missing distinct_missing)
  show ?thesis
    unfolding Let_def fst_compute_precision fst_compute_aer
    using inv app mis p2 r2 a2 by (intro conjI refl)
qed

theorem repair_sure_subset_possible_witness:
  "sure ` set [\<lparr>sure = 0::addr, possible = 1\<rparr>] \<inter> possible ` set [\<lparr>sure = 0::addr, possible = 1\<rparr>] = {}
   \<and> fst (compute_precision (heap_of [[(1, 1)], [], [(1, 1)]]) [\<lparr>sure = 0, possible = 1\<rparr>] [2]) 1 = [(1, 1)]
   \<and> compute_precision (fst (compute_precision (heap_of [[(1, 1)], [], [(1, 1)]]) [\<lparr>sure = 0, possible = 1\<rparr>] [2]))
        [\<lparr>sure = 0, possible = 1\<rparr>] [2]
       = compute_precision (heap_of [[(1, 1)], [], [(1, 1)]]) [\<lparr>sure = 0, possible = 1\<rparr>] [2]"
proof -
  have sep: "sure ` set [\<lparr>sure = 0::addr, possible = 1\<rparr>]
      \<inter> possible ` set [\<lparr>sure = 0::addr, possible = 1\<rparr>] = {}"
    by simp
  from repair_sure_subset_possible [OF sep, of "heap_of [[(1, 1)], [], [(1, 1)]]" "[2]"]
  show ?thesis
    by (simp add: Let_def)
qed

text \<open>
  Claim C3 as stated fails when a list object is shared. Below, the list at address 0 is
  the \<open>sure\<close> list of the first entry and the \<open>possible\<close> list of the second: the loop
  repairs the first entry, then appends \<open>(1, 1)\<close> to the list at address 0 while repairing
  the second. The first entry's \<open>sure\<close> list is then \<open>[(1, 1)]\<close> and its \<open>possible\<close> list is
  empty, and a second run appends to it.
\<close>

theorem repair_aliased_counterexample:
  "fst (compute_precision (heap_of [[], [], [(1, 1)]])
        [\<lparr>sure = 0, possible = 1\<rparr>, \<lparr>sure = 2, possible = 0\<rparr>] []) 0 = [(1, 1)]
   \<and> fst (compute_precision (heap_of [[], [], [(1, 1)]])
        [\<lparr>sure = 0, possible = 1\<rparr>, \<lparr>sure = 2, possible = 0\<rparr>] []) 1 = []
   \<and> fst (compute_precision (fst (compute_precision (heap_of [[], [], [(1, 1)]])
        [\<lparr>sure = 0, possible = 1\<rparr>, \<lparr>sure = 2, possible = 0\<rparr>] []))
        [\<lparr>sure = 0, possible = 1\<rparr>, \<lparr>sure = 2, possible = 0\<rparr>] []) 1 = [(1, 1)]"
  by (simp add: compute_precision_def repair_sent_eq)

section \<open>The metric values\<close>

lemma snd_compute_recall:
  "snd (compute_recall h reference predicted) = (\<Sum>sent\<leftarrow>reference. int (length (h (sure sent))))"
  by (simp add: compute_recall_def)

lemma precision_den_nonneg: "0 \<le> snd (snd (compute_precision h reference predicted))"
  by (auto simp: compute_precision_def Let_def intro!: sum_list_nonneg)

lemma precision_num_nonneg: "0 \<le> fst (snd (compute_precision h reference predicted))"
  by (auto simp: compute_precision_def Let_def intro!: sum_list_nonneg)

lemma recall_den_nonneg: "0 \<le> snd (compute_recall h reference predicted)"
  by (auto simp: compute_recall_def Let_def intro!: sum_list_nonneg)

lemma recall_num_nonneg: "0 \<le> fst (compute_recall h reference predicted)"
  by (auto simp: compute_recall_def Let_def intro!: sum_list_nonneg)

lemma compute_aer_unfold:
  "compute_aer h reference predicted =
     (repair h reference,
      case int_true_divide
             (fst (snd (compute_precision h reference predicted))
                + fst (compute_recall (repair h reference) reference predicted))
             (snd (snd (compute_precision h reference predicted))
                + snd (compute_recall (repair h reference) reference predicted)) of
        Inl e \<Rightarrow> Inl e
      | Inr ratio \<Rightarrow> Inr (float_sub 1 ratio))"
  by (simp add: compute_aer_def case_prod_beta fst_compute_precision)

text \<open>
  The quotient is at most 2, since neither numerator exceeds the number of predicted
  pairs; so the division never raises \<open>OverflowError\<close>.
\<close>

lemma sum_list_zip_le:
  fixes f :: "'a \<Rightarrow> 'b \<Rightarrow> int"
  assumes "\<And>y. 0 \<le> g y" and "\<And>x y. f x y \<le> g y"
  shows "(\<Sum>(x, y)\<leftarrow>zip xs ys. f x y) \<le> (\<Sum>y\<leftarrow>ys. g y)"
proof (induction xs arbitrary: ys)
  case Nil
  show ?case by (auto intro!: sum_list_nonneg simp: assms(1))
next
  case (Cons x xs)
  show ?case
  proof (cases ys)
    case Nil
    then show ?thesis by simp
  next
    case (Cons y ys')
    with Cons.IH [of ys'] assms(2) [of x y] show ?thesis
      by simp
  qed
qed

lemma precision_num_le_den:
  "fst (snd (compute_precision h reference predicted))
     \<le> snd (snd (compute_precision h reference predicted))"
  unfolding compute_precision_def Let_def snd_conv fst_conv
  by (rule sum_list_zip_le) simp_all

lemma recall_num_le_precision_den:
  "fst (compute_recall (repair h reference) reference predicted)
     \<le> snd (snd (compute_precision h reference predicted))"
  unfolding compute_precision_def compute_recall_def Let_def snd_conv fst_conv
  by (rule sum_list_zip_le) simp_all

lemma small_not_overflow:
  assumes "0 \<le> t" and "t \<le> 2"
  shows "\<not> binary64_overflow t"
proof -
  have "(2::rat) \<le> binary64_max"
    by (simp add: binary64_max_def)
  with assms have "\<bar>t\<bar> \<le> binary64_max"
    by simp
  then have "\<bar>binary64_nearest t\<bar> \<le> binary64_max"
    by (rule nearest_abs_le_max)
  moreover have "binary64_max < 2 powi 1024"
    by (simp add: binary64_max_def)
  ultimately show ?thesis
    by (simp add: binary64_overflow_def)
qed

lemma compute_aer_no_overflow:
  "\<not> binary64_overflow
       (of_int (fst (snd (compute_precision h reference predicted))
                  + fst (compute_recall (repair h reference) reference predicted))
        / of_int (snd (snd (compute_precision h reference predicted))
                  + snd (compute_recall (repair h reference) reference predicted)))"
proof -
  let ?pn = "fst (snd (compute_precision h reference predicted))"
  let ?pd = "snd (snd (compute_precision h reference predicted))"
  let ?rn = "fst (compute_recall (repair h reference) reference predicted)"
  let ?rd = "snd (compute_recall (repair h reference) reference predicted)"
  have n0: "0 \<le> ?pn + ?rn"
    using precision_num_nonneg [of h reference predicted]
      recall_num_nonneg [of "repair h reference" reference predicted] by linarith
  have d0: "0 \<le> ?pd + ?rd"
    using precision_den_nonneg [of h reference predicted]
      recall_den_nonneg [of "repair h reference" reference predicted] by linarith
  have "a + b \<le> 2 * (c + d)" if "a \<le> c" and "b \<le> c" and "0 \<le> d" for a b c d :: int
    using that by (simp add: algebra_simps)
  then have le: "?pn + ?rn \<le> 2 * (?pd + ?rd)"
    using precision_num_le_den [of h reference predicted]
      recall_num_le_precision_den [of h reference predicted]
      recall_den_nonneg [of "repair h reference" reference predicted] by blast
  have t0: "(0::rat) \<le> of_int (?pn + ?rn) / of_int (?pd + ?rd)"
    using n0 d0 by (intro divide_nonneg_nonneg) simp_all
  have t2: "(of_int (?pn + ?rn) :: rat) / of_int (?pd + ?rd) \<le> 2"
  proof (cases "?pd + ?rd = 0")
    case True
    then show ?thesis by simp
  next
    case False
    with d0 have pos: "(0::rat) < of_int (?pd + ?rd)"
      by simp
    from le have "(of_int (?pn + ?rn) :: rat) \<le> of_int (2 * (?pd + ?rd))"
      by (simp only: of_int_le_iff)
    then have "(of_int (?pn + ?rn) :: rat) \<le> 2 * of_int (?pd + ?rd)"
      by simp
    with pos show ?thesis
      by (simp add: pos_divide_le_eq)
  qed
  from t0 t2 show ?thesis
    by (rule small_not_overflow)
qed

lemma compute_aer_value:
  "snd (compute_aer h reference predicted) =
     (let n = fst (snd (compute_precision h reference predicted))
                + fst (compute_recall (repair h reference) reference predicted);
          d = snd (snd (compute_precision h reference predicted))
                + snd (compute_recall (repair h reference) reference predicted)
      in if d = 0 then Inl ZeroDivisionError
         else Inr (binary64_nearest (1 - binary64_nearest (of_int n / of_int d))))"
  using compute_aer_no_overflow [of h reference predicted]
  by (simp add: compute_aer_unfold int_true_divide_def float_sub_def Let_def)

lemma aer_error_bound:
  "\<bar>binary64_nearest (1 - binary64_nearest t) - (1 - t)\<bar>
     \<le> max (\<bar>t\<bar> / 2 ^ 53) (1 / 2 ^ 1075)
       + max (\<bar>1 - binary64_nearest t\<bar> / 2 ^ 53) (1 / 2 ^ 1075)"
proof -
  let ?y = "binary64_nearest t"
  have "\<bar>binary64_nearest (1 - ?y) - (1 - t)\<bar>
      \<le> \<bar>binary64_nearest (1 - ?y) - (1 - ?y)\<bar> + \<bar>?y - t\<bar>"
    by linarith
  with nearest_error [of "1 - ?y"] nearest_error [of t] show ?thesis
    by linarith
qed

text \<open>The subtraction that follows the division stays finite.\<close>

lemma float_sub_in_compute_aer_finite:
  "int_true_divide a b = Inr ratio \<Longrightarrow> 0 \<le> a \<Longrightarrow> 0 \<le> b \<Longrightarrow>
   \<not> binary64_overflow (1 - ratio)"
proof -
  assume r: "int_true_divide a b = Inr ratio" and a: "0 \<le> a" and b: "0 \<le> b"
  let ?t = "rat_of_int a / rat_of_int b"
  from r have nz: "b \<noteq> 0" and no: "\<not> binary64_overflow ?t" and ratio: "ratio = binary64_nearest ?t"
    by (auto simp: int_true_divide_def split: if_splits)
  have "0 \<le> ?t" using a b by (intro divide_nonneg_nonneg) simp_all
  from float_sub_finite [OF this no] ratio show ?thesis by simp
qed

text \<open>
  Claim C4, as amended. \<open>compute_precision\<close> returns the number of predicted pairs,
  counted with multiplicity, that lie in the \<open>possible\<close> lists as the repair left them, and
  the total number of predicted pairs; \<open>compute_recall\<close>, called next on the repaired
  store, returns the same count for the \<open>sure\<close> lists and the total length of the \<open>sure\<close>
  lists. \<open>compute_aer\<close> raises \<open>ZeroDivisionError\<close> when the two denominators sum to zero
  and returns a float otherwise: the binary64 number nearest to one minus the binary64
  number nearest to the sum of the numerators over the sum of the denominators. That
  float need not be the exact value of \<open>1 - (pn + rn) / (pd + rd)\<close>; it differs from it by
  at most the two rounding errors, each at most the relative error \<open>2 ^ -53\<close> of the
  rounded number (or half the least subnormal). The repair that precedes the counting
  writes to \<open>possible\<close> lists only and leaves every \<open>sure\<close> pair of an entry in the entry's
  \<open>possible\<close> list; when no list is both a \<open>sure\<close> and a \<open>possible\<close> list, each
  \<open>possible\<close> list is extended by exactly the \<open>sure\<close> pairs it lacked, once each and in
  order. For the reference \<open>sure = [(1,1)]\<close>, \<open>possible = [(1,1),(2,2)]\<close> and the prediction
  \<open>[(1,1),(2,2),(3,3)]\<close> precision is \<open>(2, 3)\<close>, recall is \<open>(1, 1)\<close> and the error rate is
  \<open>0.25\<close>, exactly. For \<open>sure = [(1,1)]\<close>, \<open>possible = []\<close> and the prediction
  \<open>[(1,1),(3,3)]\<close> the repair makes the precision \<open>(1, 2)\<close>, and the error rate is the float
  \<open>0.33333333333333337\<close>, which is \<open>3002399751580331 / 2 ^ 53\<close>.
\<close>

theorem compute_aer_formula:
  "(let h' = fst (compute_precision h reference predicted);
        pn = (\<Sum>(ref_sent, pred_sent)\<leftarrow>zip reference predicted.
                int (size {#pair \<in># mset (h' pred_sent). pair \<in> set (h' (possible ref_sent))#}));
        pd = (\<Sum>pred_sent\<leftarrow>predicted. int (length (h' pred_sent)));
        rn = (\<Sum>(ref_sent, pred_sent)\<leftarrow>zip reference predicted.
                int (size {#pair \<in># mset (h' pred_sent). pair \<in> set (h' (sure ref_sent))#}));
        rd = (\<Sum>ref_sent\<leftarrow>reference. int (length (h' (sure ref_sent))))
    in compute_precision h reference predicted = (h', (pn, pd))
     \<and> compute_recall h' reference predicted = (rn, rd)
     \<and> compute_aer h reference predicted =
         (h', if pd + rd = 0 then Inl ZeroDivisionError
              else Inr (binary64_nearest (1 - binary64_nearest (of_int (pn + rn) / of_int (pd + rd)))))
     \<and> (\<forall>v. snd (compute_aer h reference predicted) = Inr v \<longrightarrow>
           \<bar>v - (1 - of_int (pn + rn) / of_int (pd + rd))\<bar>
             \<le> max (of_int (pn + rn) / of_int (pd + rd) / 2 ^ 53) (1 / 2 ^ 1075)
               + max (\<bar>1 - binary64_nearest (of_int (pn + rn) / of_int (pd + rd))\<bar> / 2 ^ 53)
                   (1 / 2 ^ 1075))
     \<and> (\<forall>a. a \<notin> possible ` set reference \<longrightarrow> h' a = h a)
     \<and> (\<forall>sent\<in>set reference. set (h (sure sent)) \<subseteq> set (h' (possible sent)))
     \<and> (sure ` set reference \<inter> possible ` set reference = {} \<longrightarrow>
          (\<forall>a. h' a = h a @ missing (h a)
             (concat (map (\<lambda>s. h (sure s)) (filter (\<lambda>s. possible s = a) reference))))))
   \<and> snd (compute_precision (heap_of [[(1, 1)], [(1, 1), (2, 2)], [(1, 1), (2, 2), (3, 3)]])
        [\<lparr>sure = 0, possible = 1\<rparr>] [2]) = (2, 3)
   \<and> compute_recall (heap_of [[(1, 1)], [(1, 1), (2, 2)], [(1, 1), (2, 2), (3, 3)]])
        [\<lparr>sure = 0, possible = 1\<rparr>] [2] = (1, 1)
   \<and> snd (compute_aer (heap_of [[(1, 1)], [(1, 1), (2, 2)], [(1, 1), (2, 2), (3, 3)]])
        [\<lparr>sure = 0, possible = 1\<rparr>] [2]) = Inr (1 / 4)
   \<and> snd (compute_precision (heap_of [[(1, 1)], [], [(1, 1), (3, 3)]])
        [\<lparr>sure = 0, possible = 1\<rparr>] [2]) = (1, 2)
   \<and> snd (compute_aer (heap_of [[(1, 1)], [], [(1, 1), (3, 3)]])
        [\<lparr>sure = 0, possible = 1\<rparr>] [2]) = Inr (3002399751580331 / 9007199254740992)"
proof -
  let ?h' = "repair h reference"
  let ?pn = "\<Sum>(ref_sent, pred_sent)\<leftarrow>zip reference predicted.
                int (size {#pair \<in># mset (?h' pred_sent). pair \<in> set (?h' (possible ref_sent))#})"
  let ?pd = "\<Sum>pred_sent\<leftarrow>predicted. int (length (?h' pred_sent))"
  let ?rn = "\<Sum>(ref_sent, pred_sent)\<leftarrow>zip reference predicted.
                int (size {#pair \<in># mset (?h' pred_sent). pair \<in> set (?h' (sure ref_sent))#})"
  let ?rd = "\<Sum>ref_sent\<leftarrow>reference. int (length (?h' (sure ref_sent)))"
  let ?t = "rat_of_int (?pn + ?rn) / rat_of_int (?pd + ?rd)"
  have p: "compute_precision h reference predicted = (?h', (?pn, ?pd))"
    by (simp add: compute_precision_def Let_def flip: mset_filter)
  have r: "compute_recall ?h' reference predicted = (?rn, ?rd)"
    by (simp add: compute_recall_def Let_def flip: mset_filter)
  have val: "snd (compute_aer h reference predicted) =
      (if ?pd + ?rd = 0 then Inl ZeroDivisionError
       else Inr (binary64_nearest (1 - binary64_nearest ?t)))"
    by (simp only: compute_aer_value p r fst_conv snd_conv Let_def)
  have a: "compute_aer h reference predicted =
      (?h', if ?pd + ?rd = 0 then Inl ZeroDivisionError
            else Inr (binary64_nearest (1 - binary64_nearest ?t)))"
    by (rule prod_eqI) (simp_all only: fst_compute_aer val fst_conv snd_conv)
  have pn0: "0 \<le> ?pn" using precision_num_nonneg [of h reference predicted] by (simp add: p)
  have rn0: "0 \<le> ?rn" using recall_num_nonneg [of ?h' reference predicted] by (simp add: r)
  have pd0: "0 \<le> ?pd" using precision_den_nonneg [of h reference predicted] by (simp add: p)
  have rd0: "0 \<le> ?rd" using recall_den_nonneg [of ?h' reference predicted] by (simp add: r)
  have t0: "0 \<le> ?t" using pn0 rn0 pd0 rd0 by (intro divide_nonneg_nonneg) simp_all
  have err: "\<forall>v. snd (compute_aer h reference predicted) = Inr v \<longrightarrow> \<bar>v - (1 - ?t)\<bar>
      \<le> max (?t / 2 ^ 53) (1 / 2 ^ 1075) + max (\<bar>1 - binary64_nearest ?t\<bar> / 2 ^ 53) (1 / 2 ^ 1075)"
  proof (intro allI impI)
    fix v assume "snd (compute_aer h reference predicted) = Inr v"
    with val have "Inr v = (if ?pd + ?rd = 0 then Inl ZeroDivisionError
       else Inr (binary64_nearest (1 - binary64_nearest ?t)))"
      by (simp only:)
    then have v: "v = binary64_nearest (1 - binary64_nearest ?t)"
      by (simp split: if_splits)
    have "\<bar>?t\<bar> = ?t" using t0 by (rule abs_of_nonneg)
    with aer_error_bound [of ?t] show "\<bar>v - (1 - ?t)\<bar>
      \<le> max (?t / 2 ^ 53) (1 / 2 ^ 1075) + max (\<bar>1 - binary64_nearest ?t\<bar> / 2 ^ 53) (1 / 2 ^ 1075)"
      by (simp only: v)
  qed
  have frame: "\<forall>a. a \<notin> possible ` set reference \<longrightarrow> ?h' a = h a"
    using repair_frame by blast
  have inv: "\<forall>sent\<in>set reference. set (h (sure sent)) \<subseteq> set (?h' (possible sent))"
    using repair_sure_in_possible by blast
  have exact: "sure ` set reference \<inter> possible ` set reference = {} \<longrightarrow>
      (\<forall>a. ?h' a = h a @ missing (h a)
         (concat (map (\<lambda>s. h (sure s)) (filter (\<lambda>s. possible s = a) reference))))"
    using repair_eq by blast
  have general: "(let h' = fst (compute_precision h reference predicted);
        pn = (\<Sum>(ref_sent, pred_sent)\<leftarrow>zip reference predicted.
                int (size {#pair \<in># mset (h' pred_sent). pair \<in> set (h' (possible ref_sent))#}));
        pd = (\<Sum>pred_sent\<leftarrow>predicted. int (length (h' pred_sent)));
        rn = (\<Sum>(ref_sent, pred_sent)\<leftarrow>zip reference predicted.
                int (size {#pair \<in># mset (h' pred_sent). pair \<in> set (h' (sure ref_sent))#}));
        rd = (\<Sum>ref_sent\<leftarrow>reference. int (length (h' (sure ref_sent))))
    in compute_precision h reference predicted = (h', (pn, pd))
     \<and> compute_recall h' reference predicted = (rn, rd)
     \<and> compute_aer h reference predicted =
         (h', if pd + rd = 0 then Inl ZeroDivisionError
              else Inr (binary64_nearest (1 - binary64_nearest (of_int (pn + rn) / of_int (pd + rd)))))
     \<and> (\<forall>v. snd (compute_aer h reference predicted) = Inr v \<longrightarrow>
           \<bar>v - (1 - of_int (pn + rn) / of_int (pd + rd))\<bar>
             \<le> max (of_int (pn + rn) / of_int (pd + rd) / 2 ^ 53) (1 / 2 ^ 1075)
               + max (\<bar>1 - binary64_nearest (of_int (pn + rn) / of_int (pd + rd))\<bar> / 2 ^ 53)
                   (1 / 2 ^ 1075))
     \<and> (\<forall>a. a \<notin> possible ` set reference \<longrightarrow> h' a = h a)
     \<and> (\<forall>sent\<in>set reference. set (h (sure sent)) \<subseteq> set (h' (possible sent)))
     \<and> (sure ` set reference \<inter> possible ` set reference = {} \<longrightarrow>
          (\<forall>a. h' a = h a @ missing (h a)
             (concat (map (\<lambda>s. h (sure s)) (filter (\<lambda>s. possible s = a) reference))))))"
    unfolding Let_def fst_compute_precision
    using p r a err frame inv exact by (intro conjI)
  have ex1: "snd (compute_precision (heap_of [[(1, 1)], [(1, 1), (2, 2)], [(1, 1), (2, 2), (3, 3)]])
        [\<lparr>sure = 0, possible = 1\<rparr>] [2]) = (2, 3)"
    by (simp add: compute_precision_def repair_sent_eq)
  have ex2: "compute_recall (heap_of [[(1, 1)], [(1, 1), (2, 2)], [(1, 1), (2, 2), (3, 3)]])
        [\<lparr>sure = 0, possible = 1\<rparr>] [2] = (1, 1)"
    by (simp add: compute_recall_def)
  have ex3: "snd (compute_aer (heap_of [[(1, 1)], [(1, 1), (2, 2)], [(1, 1), (2, 2), (3, 3)]])
        [\<lparr>sure = 0, possible = 1\<rparr>] [2]) = Inr (1 / 4)"
    by code_simp
  have ex4: "snd (compute_precision (heap_of [[(1, 1)], [], [(1, 1), (3, 3)]])
        [\<lparr>sure = 0, possible = 1\<rparr>] [2]) = (1, 2)"
    by (simp add: compute_precision_def repair_sent_eq)
  have ex5: "snd (compute_aer (heap_of [[(1, 1)], [], [(1, 1), (3, 3)]])
        [\<lparr>sure = 0, possible = 1\<rparr>] [2]) = Inr (3002399751580331 / 9007199254740992)"
    by code_simp
  from general ex1 ex2 ex3 ex4 ex5 show ?thesis by (intro conjI)
qed

theorem compute_aer_formula_witness:
  "sure ` set [\<lparr>sure = 0::addr, possible = 1\<rparr>] \<inter> possible ` set [\<lparr>sure = 0::addr, possible = 1\<rparr>] = {}
   \<and> 0 \<notin> possible ` set [\<lparr>sure = 0::addr, possible = 1\<rparr>]
   \<and> fst (compute_precision (heap_of [[(1, 1)], [], [(1, 1), (3, 3)]]) [\<lparr>sure = 0, possible = 1\<rparr>] [2]) 0
       = [(1, 1)]
   \<and> fst (compute_precision (heap_of [[(1, 1)], [], [(1, 1), (3, 3)]]) [\<lparr>sure = 0, possible = 1\<rparr>] [2]) 1
       = [(1, 1)]
   \<and> compute_precision (heap_of [[(1, 1)], [], [(1, 1), (3, 3)]]) [\<lparr>sure = 0, possible = 1\<rparr>] [2]
       = (fst (compute_precision (heap_of [[(1, 1)], [], [(1, 1), (3, 3)]]) [\<lparr>sure = 0, possible = 1\<rparr>] [2]),
          (1, 2))
   \<and> snd (compute_aer (heap_of [[(1, 1)], [], [(1, 1), (3, 3)]]) [\<lparr>sure = 0, possible = 1\<rparr>] [2])
       = Inr (3002399751580331 / 9007199254740992)
   \<and> \<bar>3002399751580331 / 9007199254740992 - (1 - (1 + 1) / (2 + 1))\<bar> \<le> (1 / 2 ^ 53 :: rat)"
proof -
  let ?H = "heap_of [[(1, 1)], [], [(1, 1), (3, 3)]]"
  let ?R = "[\<lparr>sure = 0::addr, possible = 1\<rparr>]"
  let ?h' = "fst (compute_precision ?H ?R [2])"
  have sep: "sure ` set ?R \<inter> possible ` set ?R = {}"
    by simp
  have out: "0 \<notin> possible ` set ?R"
    by simp
  note spec = compute_aer_formula [of ?H ?R "[2]", unfolded Let_def]
  from spec have exact: "sure ` set ?R \<inter> possible ` set ?R = {} \<longrightarrow>
      (\<forall>a. ?h' a = ?H a @ missing (?H a)
             (concat (map (\<lambda>s. ?H (sure s)) (filter (\<lambda>s. possible s = a) ?R))))"
    by (elim conjE)
  from spec have frame: "\<forall>a. a \<notin> possible ` set ?R \<longrightarrow> ?h' a = ?H a"
    by (elim conjE)
  from frame out have h0: "?h' 0 = [(1, 1)]"
    by simp
  from exact sep have h1: "?h' 1 = [(1, 1)]"
    by simp
  from exact sep have h2: "?h' 2 = [(1, 1), (3, 3)]"
    by simp
  from spec have "compute_precision ?H ?R [2]
      = (?h',
         ((\<Sum>(ref_sent, pred_sent)\<leftarrow>zip ?R [2].
             int (size {#pair \<in># mset (?h' pred_sent). pair \<in> set (?h' (possible ref_sent))#})),
          (\<Sum>pred_sent\<leftarrow>[2]. int (length (?h' pred_sent)))))"
    by (elim conjE)
  with h1 h2 have p: "compute_precision ?H ?R [2] = (?h', (1, 2))"
    by simp
  from spec have v: "snd (compute_aer ?H ?R [2]) = Inr (3002399751580331 / 9007199254740992)"
    by (elim conjE)
  from spec have "\<forall>v. snd (compute_aer ?H ?R [2]) = Inr v \<longrightarrow>
      \<bar>v - (1 - of_int ((\<Sum>(ref_sent, pred_sent)\<leftarrow>zip ?R [2].
                int (size {#pair \<in># mset (?h' pred_sent). pair \<in> set (?h' (possible ref_sent))#}))
              + (\<Sum>(ref_sent, pred_sent)\<leftarrow>zip ?R [2].
                int (size {#pair \<in># mset (?h' pred_sent). pair \<in> set (?h' (sure ref_sent))#})))
            / of_int ((\<Sum>pred_sent\<leftarrow>[2]. int (length (?h' pred_sent)))
              + (\<Sum>ref_sent\<leftarrow>?R. int (length (?h' (sure ref_sent))))))\<bar>
      \<le> max (of_int ((\<Sum>(ref_sent, pred_sent)\<leftarrow>zip ?R [2].
                int (size {#pair \<in># mset (?h' pred_sent). pair \<in> set (?h' (possible ref_sent))#}))
              + (\<Sum>(ref_sent, pred_sent)\<leftarrow>zip ?R [2].
                int (size {#pair \<in># mset (?h' pred_sent). pair \<in> set (?h' (sure ref_sent))#})))
            / of_int ((\<Sum>pred_sent\<leftarrow>[2]. int (length (?h' pred_sent)))
              + (\<Sum>ref_sent\<leftarrow>?R. int (length (?h' (sure ref_sent))))) / 2 ^ 53) (1 / 2 ^ 1075)
        + max (\<bar>1 - binary64_nearest (of_int ((\<Sum>(ref_sent, pred_sent)\<leftarrow>zip ?R [2].
                int (size {#pair \<in># mset (?h' pred_sent). pair \<in> set (?h' (possible ref_sent))#}))
              + (\<Sum>(ref_sent, pred_sent)\<leftarrow>zip ?R [2].
                int (size {#pair \<in># mset (?h' pred_sent). pair \<in> set (?h' (sure ref_sent))#})))
            / of_int ((\<Sum>pred_sent\<leftarrow>[2]. int (length (?h' pred_sent)))
              + (\<Sum>ref_sent\<leftarrow>?R. int (length (?h' (sure ref_sent))))))\<bar> / 2 ^ 53) (1 / 2 ^ 1075)"
    by (elim conjE)
  with h0 h1 h2 have "\<forall>v. snd (compute_aer ?H ?R [2]) = Inr v \<longrightarrow>
      \<bar>v - (1 - (1 + 1) / (2 + 1))\<bar>
        \<le> max ((1 + 1) / (2 + 1) / 2 ^ 53) (1 / 2 ^ 1075)
          + max (\<bar>1 - binary64_nearest ((1 + 1) / (2 + 1))\<bar> / 2 ^ 53) (1 / 2 ^ 1075)"
    by simp
  with v have "\<bar>3002399751580331 / 9007199254740992 - (1 - (1 + 1) / (2 + 1))\<bar>
        \<le> max ((1 + 1) / (2 + 1) / 2 ^ 53) (1 / 2 ^ 1075)
          + max (\<bar>1 - binary64_nearest ((1 + 1) / (2 + 1))\<bar> / 2 ^ 53) (1 / 2 ^ 1075)"
    by simp
  then have b: "\<bar>3002399751580331 / 9007199254740992 - (1 - (1 + 1) / (2 + 1))\<bar> \<le> (1 / 2 ^ 53 :: rat)"
    by simp
  from sep out h0 h1 p v b show ?thesis by (intro conjI)
qed

text \<open>
  Claim C4 as stated fails where the quotient is not a binary64 number. For
  \<open>sure = [(1,1),(2,2)]\<close>, \<open>possible = []\<close> and the prediction \<open>[(1,1)]\<close> precision is
  \<open>(1, 1)\<close>, recall is \<open>(1, 2)\<close>, and \<open>compute_aer\<close> returns \<open>3002399751580331 / 2 ^ 53\<close>
  (\<open>0.33333333333333337\<close>), which is not \<open>1 - (1 + 1) / (1 + 2)\<close>.
\<close>

theorem compute_aer_rounded_counterexample:
  "snd (compute_precision (heap_of [[(1, 1), (2, 2)], [], [(1, 1)]]) [\<lparr>sure = 0, possible = 1\<rparr>] [2]) = (1, 1)
   \<and> compute_recall (fst (compute_precision (heap_of [[(1, 1), (2, 2)], [], [(1, 1)]])
        [\<lparr>sure = 0, possible = 1\<rparr>] [2])) [\<lparr>sure = 0, possible = 1\<rparr>] [2] = (1, 2)
   \<and> snd (compute_aer (heap_of [[(1, 1), (2, 2)], [], [(1, 1)]]) [\<lparr>sure = 0, possible = 1\<rparr>] [2])
       = Inr (3002399751580331 / 9007199254740992)
   \<and> (3002399751580331 / 9007199254740992 :: rat) \<noteq> 1 - (1 + 1) / (1 + 2)"
proof -
  have "snd (compute_aer (heap_of [[(1, 1), (2, 2)], [], [(1, 1)]]) [\<lparr>sure = 0, possible = 1\<rparr>] [2])
       = Inr (3002399751580331 / 9007199254740992)"
    by code_simp
  then show ?thesis
    by (simp add: compute_precision_def compute_recall_def repair_sent_eq)
qed

section \<open>Division by zero\<close>

lemma sum_list_map_zero:
  "\<forall>x\<in>set xs. f x = (0::int) \<Longrightarrow> sum_list (map f xs) = 0"
  by (induction xs) simp_all

text \<open>
  Claim C7. \<open>compute_aer\<close> raises \<open>ZeroDivisionError\<close> exactly when the denominator of
  the precision and the denominator of the recall sum to zero, and it returns no number
  then; in particular it does so whenever every predicted list and every \<open>sure\<close> list is
  empty, and it leaves the store as it was.
\<close>

theorem compute_aer_zero_division:
  "(snd (compute_aer h reference predicted) = Inl ZeroDivisionError
      \<longleftrightarrow> snd (snd (compute_precision h reference predicted))
           + snd (compute_recall (fst (compute_precision h reference predicted)) reference predicted) = 0)
   \<and> ((\<forall>pred_sent\<in>set predicted. h pred_sent = [])
        \<and> (\<forall>ref_sent\<in>set reference. h (sure ref_sent) = [])
      \<longrightarrow> compute_aer h reference predicted = (h, Inl ZeroDivisionError))"
proof -
  have iff: "snd (compute_aer h reference predicted) = Inl ZeroDivisionError
      \<longleftrightarrow> snd (snd (compute_precision h reference predicted))
           + snd (compute_recall (fst (compute_precision h reference predicted)) reference predicted) = 0"
    by (simp add: compute_aer_value fst_compute_precision Let_def)
  have empty: "compute_aer h reference predicted = (h, Inl ZeroDivisionError)"
    if pe: "\<forall>pred_sent\<in>set predicted. h pred_sent = []"
      and se: "\<forall>ref_sent\<in>set reference. h (sure ref_sent) = []"
  proof -
    from se have "\<forall>sent\<in>set reference. set (h (sure sent)) \<subseteq> set (h (possible sent))"
      by simp
    then have same: "repair h reference = h"
      by (rule repair_noop)
    have A: "snd (snd (compute_precision h reference predicted)) = 0"
      using pe by (simp add: compute_precision_def Let_def same sum_list_map_zero)
    have S: "snd (compute_recall h reference predicted) = 0"
      using se by (simp add: compute_recall_def Let_def sum_list_map_zero)
    show ?thesis
      by (simp add: compute_aer_unfold same A S int_true_divide_def)
  qed
  from iff empty show ?thesis by blast
qed

theorem compute_aer_zero_division_witness:
  "heap_of [[], [(1, 1)]] 2 = []
   \<and> heap_of [[], [(1, 1)]] (sure \<lparr>sure = 0, possible = 1\<rparr>) = []
   \<and> compute_aer (heap_of [[], [(1, 1)]]) [\<lparr>sure = 0, possible = 1\<rparr>] [2, 2]
       = (heap_of [[], [(1, 1)]], Inl ZeroDivisionError)"
  using compute_aer_zero_division [of "heap_of [[], [(1, 1)]]" "[\<lparr>sure = 0, possible = 1\<rparr>]" "[2, 2]"]
  by simp

section \<open>The bound on the error rate\<close>

text \<open>
  Claim C10. Whenever \<open>compute_aer\<close> returns a number, the number is at most 1; it can
  be negative, since a pair predicted several times is counted each time in both
  numerators: for \<open>sure = [(1,1)]\<close>, \<open>possible = []\<close> and the prediction
  \<open>[(1,1),(1,1),(1,1)]\<close> the error rate is \<open>1 - 6/4 = -1/2\<close>.
\<close>

theorem compute_aer_le_one:
  "(\<forall>v. snd (compute_aer h reference predicted) = Inr v \<longrightarrow> v \<le> 1)
   \<and> snd (compute_aer (heap_of [[(1, 1)], [], [(1, 1), (1, 1), (1, 1)]])
        [\<lparr>sure = 0, possible = 1\<rparr>] [2]) = Inr (- 1 / 2)"
proof -
  let ?h' = "repair h reference"
  let ?n = "fst (snd (compute_precision h reference predicted))
      + fst (compute_recall ?h' reference predicted)"
  let ?d = "snd (snd (compute_precision h reference predicted))
      + snd (compute_recall ?h' reference predicted)"
  have n: "0 \<le> ?n"
    using precision_num_nonneg [of h reference predicted]
      recall_num_nonneg [of ?h' reference predicted] by linarith
  have d: "0 \<le> ?d"
    using precision_den_nonneg [of h reference predicted]
      recall_den_nonneg [of ?h' reference predicted] by linarith
  have "v \<le> 1" if "snd (compute_aer h reference predicted) = Inr v" for v
  proof -
    from that have v: "v = binary64_nearest (1 - binary64_nearest (of_int ?n / of_int ?d))"
      by (simp add: compute_aer_value Let_def split: if_splits)
    have "(0::rat) \<le> of_int ?n / of_int ?d"
      using n d by (intro divide_nonneg_nonneg) simp_all
    then have "0 \<le> binary64_nearest (of_int ?n / of_int ?d)"
      by (rule nearest_nonneg)
    then have "binary64_nearest (1 - binary64_nearest (of_int ?n / of_int ?d)) \<le> 1"
      by (intro nearest_le_one) simp
    with v show ?thesis by simp
  qed
  moreover have "snd (compute_aer (heap_of [[(1, 1)], [], [(1, 1), (1, 1), (1, 1)]])
        [\<lparr>sure = 0, possible = 1\<rparr>] [2]) = Inr (- 1 / 2)"
    by code_simp
  ultimately show ?thesis by blast
qed

theorem compute_aer_le_one_witness:
  "snd (compute_aer (heap_of [[(1, 1)], [(1, 1), (2, 2)], [(1, 1), (2, 2), (3, 3)]])
        [\<lparr>sure = 0, possible = 1\<rparr>] [2]) = Inr (1 / 4)
   \<and> (1 / 4 :: rat) \<le> 1"
proof -
  have v: "snd (compute_aer (heap_of [[(1, 1)], [(1, 1), (2, 2)], [(1, 1), (2, 2), (3, 3)]])
        [\<lparr>sure = 0, possible = 1\<rparr>] [2]) = Inr (1 / 4)"
    by code_simp
  from compute_aer_le_one [of "heap_of [[(1, 1)], [(1, 1), (2, 2)], [(1, 1), (2, 2), (3, 3)]]"
      "[\<lparr>sure = 0, possible = 1\<rparr>]" "[2]"] v
  show ?thesis by blast
qed

section \<open>What the repair leaves unchanged\<close>

lemma compute_recall_cong:
  assumes "\<And>r. r \<in> set reference \<Longrightarrow> h1 (sure r) = h2 (sure r)"
    and "\<And>q. q \<in> set predicted \<Longrightarrow> h1 q = h2 q"
  shows "compute_recall h1 reference predicted = compute_recall h2 reference predicted"
proof -
  have den: "map (\<lambda>ref_sent. int (length (h1 (sure ref_sent)))) reference
      = map (\<lambda>ref_sent. int (length (h2 (sure ref_sent)))) reference"
    by (rule map_cong) (simp_all add: assms(1))
  have num: "map (\<lambda>(ref_sent, pred_sent).
        int (length (filter (\<lambda>pair. pair \<in> set (h1 (sure ref_sent))) (h1 pred_sent))))
        (zip reference predicted)
      = map (\<lambda>(ref_sent, pred_sent).
        int (length (filter (\<lambda>pair. pair \<in> set (h2 (sure ref_sent))) (h2 pred_sent))))
        (zip reference predicted)"
  proof (rule map_cong)
    fix x assume "x \<in> set (zip reference predicted)"
    then have "fst x \<in> set reference" and "snd x \<in> set predicted"
      by (auto simp: set_zip)
    then show "(case x of (ref_sent, pred_sent) \<Rightarrow>
          int (length (filter (\<lambda>pair. pair \<in> set (h1 (sure ref_sent))) (h1 pred_sent))))
        = (case x of (ref_sent, pred_sent) \<Rightarrow>
          int (length (filter (\<lambda>pair. pair \<in> set (h2 (sure ref_sent))) (h2 pred_sent))))"
      by (cases x) (simp add: assms)
  qed simp
  show ?thesis
    unfolding compute_recall_def Let_def by (simp only: den num)
qed

text \<open>
  Claim C9, as amended. The denominator \<open>compute_recall\<close> returns is the sum of the
  lengths of the \<open>sure\<close> lists. Provided no \<open>possible\<close> list of the reference is the same
  list object as a \<open>sure\<close> list of the reference or as a predicted list, the repair inside
  \<open>compute_precision\<close> changes no \<open>sure\<close> list, and \<open>compute_recall\<close> returns the same
  pair before and after \<open>compute_precision\<close>.
\<close>

theorem compute_recall_frame:
  assumes sep: "possible ` set reference \<inter> (sure ` set reference \<union> set predicted) = {}"
  shows "snd (compute_recall h reference predicted)
        = (\<Sum>sent\<leftarrow>reference. int (length (h (sure sent))))
    \<and> (\<forall>sent\<in>set reference.
          fst (compute_precision h reference predicted) (sure sent) = h (sure sent))
    \<and> compute_recall (fst (compute_precision h reference predicted)) reference predicted
        = compute_recall h reference predicted"
proof -
  have s: "repair h reference (sure r) = h (sure r)" if "r \<in> set reference" for r
  proof (rule repair_frame)
    show "sure r \<notin> possible ` set reference" using sep that by blast
  qed
  have q: "repair h reference q = h q" if "q \<in> set predicted" for q
  proof (rule repair_frame)
    show "q \<notin> possible ` set reference" using sep that by blast
  qed
  have "compute_recall (repair h reference) reference predicted
      = compute_recall h reference predicted"
    by (rule compute_recall_cong) (simp_all add: s q)
  with s show ?thesis
    by (simp add: fst_compute_precision snd_compute_recall)
qed

theorem compute_recall_frame_witness:
  "possible ` set [\<lparr>sure = 0::addr, possible = 1\<rparr>]
      \<inter> (sure ` set [\<lparr>sure = 0::addr, possible = 1\<rparr>] \<union> set [2]) = {}
   \<and> compute_recall (heap_of [[(1, 1)], [], [(1, 1), (2, 2)]]) [\<lparr>sure = 0, possible = 1\<rparr>] [2] = (1, 1)
   \<and> compute_recall (fst (compute_precision (heap_of [[(1, 1)], [], [(1, 1), (2, 2)]])
        [\<lparr>sure = 0, possible = 1\<rparr>] [2])) [\<lparr>sure = 0, possible = 1\<rparr>] [2] = (1, 1)"
proof -
  have sep: "possible ` set [\<lparr>sure = 0::addr, possible = 1\<rparr>]
      \<inter> (sure ` set [\<lparr>sure = 0::addr, possible = 1\<rparr>] \<union> set [2]) = {}"
    by simp
  from compute_recall_frame [OF sep, of "heap_of [[(1, 1)], [], [(1, 1), (2, 2)]]"]
  show ?thesis
    by (simp add: compute_recall_def compute_precision_def repair_sent_eq)
qed

text \<open>
  Claim C9 as stated fails when a \<open>possible\<close> list is shared. First input: the predicted
  list is the reference entry's \<open>possible\<close> list itself (address 1); the repair appends
  \<open>(1, 1)\<close> to it, and the recall goes from \<open>(0, 1)\<close> to \<open>(1, 1)\<close>. Second input: the
  first entry's \<open>possible\<close> list is the second entry's \<open>sure\<close> list (address 1); the repair
  appends to it, so a \<open>sure\<close> list changes and the recall denominator goes from 1 to 2.
\<close>

theorem compute_recall_aliased_counterexample:
  "compute_recall (heap_of [[(1, 1)], []]) [\<lparr>sure = 0, possible = 1\<rparr>] [1] = (0, 1)
   \<and> compute_recall (fst (compute_precision (heap_of [[(1, 1)], []]) [\<lparr>sure = 0, possible = 1\<rparr>] [1]))
        [\<lparr>sure = 0, possible = 1\<rparr>] [1] = (1, 1)
   \<and> heap_of [[(1, 1)], [], []] 1 = []
   \<and> fst (compute_precision (heap_of [[(1, 1)], [], []])
        [\<lparr>sure = 0, possible = 1\<rparr>, \<lparr>sure = 1, possible = 2\<rparr>] []) 1 = [(1, 1)]
   \<and> compute_recall (heap_of [[(1, 1)], [], []])
        [\<lparr>sure = 0, possible = 1\<rparr>, \<lparr>sure = 1, possible = 2\<rparr>] [] = (0, 1)
   \<and> compute_recall (fst (compute_precision (heap_of [[(1, 1)], [], []])
        [\<lparr>sure = 0, possible = 1\<rparr>, \<lparr>sure = 1, possible = 2\<rparr>] []))
        [\<lparr>sure = 0, possible = 1\<rparr>, \<lparr>sure = 1, possible = 2\<rparr>] [] = (0, 2)"
  by (simp add: compute_precision_def compute_recall_def repair_sent_eq)

section \<open>The tokenizer\<close>

lemma tokenize_loop_eq:
  "tokenize_loop sentence_pairs source_dict target_dict ans =
     ans @ map (\<lambda>p. \<lparr>source_tokens = List.map_filter (map_of source_dict) (source p),
                       target_tokens = List.map_filter (map_of target_dict) (target p)\<rparr>)
             (filter (\<lambda>p. List.map_filter (map_of source_dict) (source p) \<noteq> []
                          \<and> List.map_filter (map_of target_dict) (target p) \<noteq> [])
                sentence_pairs)"
  by (induction sentence_pairs arbitrary: ans) (simp_all add: Let_def)

lemma map_filter_lookups:
  "map Some (List.map_filter f ws) = filter (\<lambda>v. v \<noteq> None) (map f ws)"
  by (induction ws) (auto simp: List.map_filter_simps split: option.splits)

text \<open>
  Claim C8. \<open>tokenize_sents\<close> turns each side of each sentence pair into the values its
  dictionary holds for the tokens that are keys, in the tokens' order, the tokens that
  are not keys being left out; it leaves a pair out when one of the two resulting sides
  is empty, and keeps the other pairs in their input order, so every pair of the output
  has two non-empty sides. With the vocabulary \<open>{"a": 0, "b": 1}\<close> the pair
  \<open>(["a", "x"], ["b"])\<close> becomes \<open>([0], [1])\<close> and the pair \<open>(["x"], ["b"])\<close> is left out.
\<close>

theorem tokenize_sents_spec:
  "tokenize_sents sentence_pairs source_dict target_dict =
     map (\<lambda>p. \<lparr>source_tokens = List.map_filter (map_of source_dict) (source p),
                 target_tokens = List.map_filter (map_of target_dict) (target p)\<rparr>)
       (filter (\<lambda>p. List.map_filter (map_of source_dict) (source p) \<noteq> []
                    \<and> List.map_filter (map_of target_dict) (target p) \<noteq> [])
          sentence_pairs)
   \<and> (\<forall>p. map Some (List.map_filter (map_of source_dict) (source p))
            = filter (\<lambda>v. v \<noteq> None) (map (map_of source_dict) (source p))
          \<and> map Some (List.map_filter (map_of target_dict) (target p))
            = filter (\<lambda>v. v \<noteq> None) (map (map_of target_dict) (target p)))
   \<and> (\<forall>t\<in>set (tokenize_sents sentence_pairs source_dict target_dict).
          source_tokens t \<noteq> [] \<and> target_tokens t \<noteq> [])
   \<and> tokenize_sents [\<lparr>source = [''a'', ''x''], target = [''b'']\<rparr>]
        [(''a'', 0), (''b'', 1)] [(''a'', 0), (''b'', 1)]
       = [\<lparr>source_tokens = [0], target_tokens = [1]\<rparr>]
   \<and> tokenize_sents [\<lparr>source = [''x''], target = [''b'']\<rparr>]
        [(''a'', 0), (''b'', 1)] [(''a'', 0), (''b'', 1)] = []"
proof -
  have eq: "tokenize_sents sentence_pairs source_dict target_dict =
     map (\<lambda>p. \<lparr>source_tokens = List.map_filter (map_of source_dict) (source p),
                 target_tokens = List.map_filter (map_of target_dict) (target p)\<rparr>)
       (filter (\<lambda>p. List.map_filter (map_of source_dict) (source p) \<noteq> []
                    \<and> List.map_filter (map_of target_dict) (target p) \<noteq> [])
          sentence_pairs)"
    by (simp add: tokenize_sents_def tokenize_loop_eq)
  have nonempty: "\<forall>t\<in>set (tokenize_sents sentence_pairs source_dict target_dict).
      source_tokens t \<noteq> [] \<and> target_tokens t \<noteq> []"
    unfolding eq by auto
  have ex1: "tokenize_sents [\<lparr>source = [''a'', ''x''], target = [''b'']\<rparr>]
        [(''a'', 0), (''b'', 1)] [(''a'', 0), (''b'', 1)]
       = [\<lparr>source_tokens = [0], target_tokens = [1]\<rparr>]"
    by (simp add: tokenize_sents_def List.map_filter_simps)
  have ex2: "tokenize_sents [\<lparr>source = [''x''], target = [''b'']\<rparr>]
        [(''a'', 0), (''b'', 1)] [(''a'', 0), (''b'', 1)] = []"
    by (simp add: tokenize_sents_def List.map_filter_simps)
  from eq nonempty ex1 ex2 show ?thesis
    by (simp only: map_filter_lookups simp_thms)
qed

theorem tokenize_sents_spec_witness:
  "tokenize_sents [\<lparr>source = [''a'', ''x''], target = [''b'']\<rparr>, \<lparr>source = [''x''], target = [''b'']\<rparr>,
                   \<lparr>source = [''b'', ''a''], target = [''c'', ''a'']\<rparr>]
        [(''a'', 0), (''b'', 1)] [(''a'', 0), (''b'', 1)]
       = [\<lparr>source_tokens = [0], target_tokens = [1]\<rparr>, \<lparr>source_tokens = [1, 0], target_tokens = [0]\<rparr>]"
proof -
  note spec = tokenize_sents_spec [of "[\<lparr>source = [''a'', ''x''], target = [''b'']\<rparr>,
      \<lparr>source = [''x''], target = [''b'']\<rparr>, \<lparr>source = [''b'', ''a''], target = [''c'', ''a'']\<rparr>]"
      "[(''a'', 0), (''b'', 1)]" "[(''a'', 0), (''b'', 1)]"]
  show ?thesis
    by (subst spec [THEN conjunct1]) (simp add: List.map_filter_simps)
qed

section \<open>The vocabulary builder\<close>

lemma keys_dict_set:
  "map fst (dict_set k v d) = (if k \<in> set (map fst d) then map fst d else map fst d @ [k])"
  by (induction d) (auto simp: rev_image_eqI)

lemma map_of_dict_set: "map_of (dict_set k v d) = (map_of d)(k \<mapsto> v)"
  by (induction d) (auto simp: fun_eq_iff)

lemma dict_set_fresh: "k \<notin> set (map fst d) \<Longrightarrow> dict_set k v d = d @ [(k, v)]"
  by (induction d) auto

lemma keys_counter_incr:
  "map fst (counter_incr w c) = (if w \<in> set (map fst c) then map fst c else map fst c @ [w])"
  by (simp add: counter_incr_def keys_dict_set)

lemma keys_fold_counter_incr:
  "map fst (fold counter_incr toks c) = map fst c @ missing (map fst c) toks"
  by (induction toks arbitrary: c) (simp_all add: keys_counter_incr)

lemma map_of_counter_incr:
  "map_of (counter_incr t c) w =
     (if w = t then Some ((case map_of c t of None \<Rightarrow> 0 | Some n \<Rightarrow> n) + 1) else map_of c w)"
  by (simp add: counter_incr_def map_of_dict_set)

lemma map_of_fold_counter_incr:
  "map_of (fold counter_incr toks c) w =
     (if w \<in> set toks \<or> map_of c w \<noteq> None
      then Some ((case map_of c w of None \<Rightarrow> 0 | Some n \<Rightarrow> n) + int (count_list toks w))
      else None)"
proof (induction toks arbitrary: c)
  case Nil
  then show ?case by (auto split: option.splits)
next
  case (Cons t toks)
  have "map_of (fold counter_incr (t # toks) c) w = map_of (fold counter_incr toks (counter_incr t c)) w"
    by simp
  also note Cons.IH [of "counter_incr t c"]
  finally show ?case
    by (auto simp: map_of_counter_incr split: option.splits)
qed

lemma dict_by_keys:
  "distinct (map fst c) \<Longrightarrow> map (\<lambda>k. (k, the (map_of c k))) (map fst c) = c"
proof (induction c)
  case Nil
  then show ?case by simp
next
  case (Cons a c)
  obtain k v where a: "a = (k, v)" by (cases a)
  from Cons.prems a have k: "k \<notin> fst ` set c" and d: "distinct (map fst c)"
    by auto
  have "map (\<lambda>x. (x, the (map_of (a # c) x))) (map fst c) = map (\<lambda>x. (x, the (map_of c x))) (map fst c)"
    using k a by (intro map_cong) auto
  with Cons.IH [OF d] a show ?case by simp
qed

lemma counter_of_scan:
  "fold counter_incr toks [] = map (\<lambda>w. (w, int (count_list toks w))) (first_seen toks)"
proof -
  let ?c = "fold counter_incr toks []"
  have keys: "map fst ?c = first_seen toks"
    by (simp add: keys_fold_counter_incr first_seen_def)
  then have "distinct (map fst ?c)"
    by (simp add: first_seen_def distinct_missing)
  then have "?c = map (\<lambda>k. (k, the (map_of ?c k))) (map fst ?c)"
    by (rule dict_by_keys [symmetric])
  also have "\<dots> = map (\<lambda>k. (k, the (map_of ?c k))) (first_seen toks)"
    by (simp only: keys)
  also have "\<dots> = map (\<lambda>w. (w, int (count_list toks w))) (first_seen toks)"
    by (rule map_cong) (simp_all add: map_of_fold_counter_incr first_seen_def set_missing)
  finally show ?thesis .
qed

lemma count_tokens_eq:
  "count_tokens sentence_pairs (en, cz) =
     (fold counter_incr (concat (map source sentence_pairs)) en,
      fold counter_incr (concat (map target sentence_pairs)) cz)"
  by (induction sentence_pairs arbitrary: en cz) simp_all

lemma insort_key_map:
  "insort_key g (h x) (map h xs) = map h (insort_key (\<lambda>y. g (h y)) x xs)"
  by (induction xs) simp_all

lemma sort_key_map: "sort_key g (map h xs) = map h (sort_key (\<lambda>y. g (h y)) xs)"
  by (induction xs) (simp_all add: insort_key_map)

lemma fold_dict_set_fresh:
  "distinct (map fst d @ map (\<lambda>x. fst (snd x)) xs) \<Longrightarrow>
   fold (\<lambda>(ind, word). dict_set (fst word) ind) xs d = d @ map (\<lambda>(ind, word). (fst word, ind)) xs"
proof (induction xs arbitrary: d)
  case Nil
  then show ?case by simp
next
  case (Cons x xs)
  obtain ind word where x: "x = (ind, word)" by (cases x)
  from Cons.prems x have fresh: "fst word \<notin> set (map fst d)"
    by auto
  then have step: "dict_set (fst word) ind d = d @ [(fst word, ind)]"
    by (rule dict_set_fresh)
  have "distinct (map fst (d @ [(fst word, ind)]) @ map (\<lambda>x. fst (snd x)) xs)"
    using Cons.prems x by auto
  from Cons.IH [OF this] x step show ?case by simp
qed

lemma map_swap_zip:
  "length is = length ws \<Longrightarrow> map (\<lambda>(ind, word). (fst word, ind)) (zip is ws) = zip (map fst ws) is"
  by (induction "is" ws rule: list_induct2) simp_all

lemma vocab_of_ranked_items:
  assumes "distinct ranked"
  shows "vocab_of_items (enumerate_list (map (\<lambda>w. (w, f w)) ranked))
      = zip ranked (map int [0..<length ranked])"
proof -
  let ?items = "map (\<lambda>w. (w, f w)) ranked"
  have "map snd (enumerate_list ?items) = ?items"
    unfolding enumerate_list_def by (rule map_snd_zip) simp
  then have "map fst (map snd (enumerate_list ?items)) = ranked"
    by (simp add: comp_def)
  then have "map (\<lambda>x. fst (snd x)) (enumerate_list ?items) = ranked"
    by (simp add: comp_def)
  with assms have "vocab_of_items (enumerate_list ?items)
      = map (\<lambda>(ind, word). (fst word, ind)) (enumerate_list ?items)"
    unfolding vocab_of_items_def by (subst fold_dict_set_fresh) simp_all
  also have "\<dots> = zip (map fst ?items) (map int [0..<length ?items])"
    unfolding enumerate_list_def by (rule map_swap_zip) simp
  finally show ?thesis by (simp add: comp_def)
qed

lemma vocab_of_most_common:
  "vocab_of_items (enumerate_list (most_common (fold counter_incr toks []))) = vocab_by_frequency toks"
proof -
  have "most_common (fold counter_incr toks [])
      = map (\<lambda>w. (w, int (count_list toks w))) (sort_key (\<lambda>w. - int (count_list toks w)) (first_seen toks))"
    by (simp add: most_common_def counter_of_scan sort_key_map)
  moreover have "distinct (sort_key (\<lambda>w. - int (count_list toks w)) (first_seen toks))"
    by (simp add: first_seen_def distinct_missing)
  ultimately show ?thesis
    by (simp add: vocab_of_ranked_items vocab_by_frequency_def Let_def)
qed

lemma get_token_to_index_None:
  "get_token_to_index sentence_pairs None =
     Inr (vocab_by_frequency (concat (map source sentence_pairs)),
          vocab_by_frequency (concat (map target sentence_pairs)))"
  by (simp add: get_token_to_index_def count_tokens_eq vocab_of_most_common)


lemma set_first_seen: "set (first_seen toks) = set toks"
  by (simp add: first_seen_def set_missing)

lemma keys_vocab_by_frequency:
  "map fst (vocab_by_frequency toks) = sort_key (\<lambda>w. - int (count_list toks w)) (first_seen toks)"
  by (simp add: vocab_by_frequency_def Let_def)

lemma vocab_by_frequency_props:
  "fst ` set (vocab_by_frequency toks) = set toks
   \<and> distinct (map fst (vocab_by_frequency toks))
   \<and> map snd (vocab_by_frequency toks) = map int [0..<length (vocab_by_frequency toks)]
   \<and> (\<forall>i j. i \<le> j \<and> j < length (vocab_by_frequency toks) \<longrightarrow>
          count_list toks (fst (vocab_by_frequency toks ! j))
            \<le> count_list toks (fst (vocab_by_frequency toks ! i)))
   \<and> (\<forall>n. filter (\<lambda>w. count_list toks w = n) (map fst (vocab_by_frequency toks))
          = filter (\<lambda>w. count_list toks w = n) (first_seen toks))"
proof -
  let ?v = "vocab_by_frequency toks"
  let ?key = "\<lambda>w. - int (count_list toks w)"
  let ?ranked = "sort_key ?key (first_seen toks)"
  have keys: "map fst ?v = ?ranked"
    by (rule keys_vocab_by_frequency)
  have len: "length ?v = length ?ranked"
    using keys by (metis length_map)
  have "set (map fst ?v) = set toks"
    unfolding keys by (simp add: set_first_seen)
  then have p1: "fst ` set ?v = set toks"
    by simp
  have p2: "distinct (map fst ?v)"
    unfolding keys by (simp add: first_seen_def distinct_missing)
  have p3: "map snd ?v = map int [0..<length ?v]"
    unfolding len by (simp add: vocab_by_frequency_def Let_def)
  have srt: "sorted (map ?key ?ranked)"
    by (rule sorted_sort_key)
  have p4: "count_list toks (fst (?v ! j)) \<le> count_list toks (fst (?v ! i))"
    if "i \<le> j" and "j < length ?v" for i j
  proof -
    from that len have j: "j < length ?ranked" and i: "i < length ?ranked"
      by simp_all
    from srt that(1) j have "map ?key ?ranked ! i \<le> map ?key ?ranked ! j"
      by (simp add: sorted_iff_nth_mono)
    with i j have "?key (?ranked ! i) \<le> ?key (?ranked ! j)"
      by simp
    moreover have "fst (?v ! i) = ?ranked ! i" "fst (?v ! j) = ?ranked ! j"
      using i j len keys by (metis nth_map)+
    ultimately show ?thesis by simp
  qed
  have p5: "filter (\<lambda>w. count_list toks w = n) (map fst ?v)
      = filter (\<lambda>w. count_list toks w = n) (first_seen toks)" for n
    using sort_key_stable [of ?key "- int n" "first_seen toks"]
    unfolding keys by simp
  from p1 p2 p3 p4 p5 show ?thesis by blast
qed

text \<open>
  Claim C2, as amended. When \<open>freq_cutoff\<close> is \<open>None\<close>, \<open>get_token_to_index\<close> returns for
  each language side the vocabulary that numbers from 0 the distinct tokens of that side
  sorted by descending number of occurrences, tokens with the same number of occurrences
  staying in first-seen order. Every token of the side is a key, no key occurs twice, and
  the indices are \<open>0, 1, \<dots>\<close> in that order.
\<close>

theorem get_token_to_index_unbounded:
  "get_token_to_index sentence_pairs None =
     Inr (vocab_by_frequency (concat (map source sentence_pairs)),
          vocab_by_frequency (concat (map target sentence_pairs)))
   \<and> (\<forall>toks. fst ` set (vocab_by_frequency toks) = set toks
        \<and> distinct (map fst (vocab_by_frequency toks))
        \<and> map snd (vocab_by_frequency toks) = map int [0..<length (vocab_by_frequency toks)]
        \<and> (\<forall>i j. i \<le> j \<and> j < length (vocab_by_frequency toks) \<longrightarrow>
              count_list toks (fst (vocab_by_frequency toks ! j))
                \<le> count_list toks (fst (vocab_by_frequency toks ! i)))
        \<and> (\<forall>n. filter (\<lambda>w. count_list toks w = n) (map fst (vocab_by_frequency toks))
              = filter (\<lambda>w. count_list toks w = n) (first_seen toks)))"
  using get_token_to_index_None vocab_by_frequency_props by blast

theorem get_token_to_index_unbounded_witness:
  "get_token_to_index [\<lparr>source = [''a'', ''b'', ''b''], target = [''x'', ''y'']\<rparr>,
                       \<lparr>source = [''c''], target = [''y'']\<rparr>] None
     = Inr ([(''b'', 0), (''a'', 1), (''c'', 2)], [(''y'', 0), (''x'', 1)])"
proof -
  note spec = get_token_to_index_unbounded [of "[\<lparr>source = [''a'', ''b'', ''b''], target = [''x'', ''y'']\<rparr>,
                       \<lparr>source = [''c''], target = [''y'']\<rparr>]"]
  show ?thesis
    by (subst spec [THEN conjunct1]) (simp add: vocab_by_frequency_def first_seen_def)
qed

text \<open>
  Claim C2 as stated fails: the numbering is by frequency, not by first occurrence. In the
  corpus below \<open>a\<close> is seen first and \<open>b\<close> occurs twice; the source gives \<open>b\<close> index 0 and
  \<open>a\<close> index 1, the first-seen numbering gives \<open>a\<close> index 0.
\<close>

theorem get_token_to_index_unbounded_counterexample:
  "get_token_to_index [\<lparr>source = [''a'', ''b'', ''b''], target = [''x'']\<rparr>] None
     = Inr ([(''b'', 0), (''a'', 1)], [(''x'', 0)])
   \<and> spec_vocab_first_seen [''a'', ''b'', ''b''] = [(''a'', 0), (''b'', 1)]"
  by (simp add: get_token_to_index_def counter_incr_def most_common_def enumerate_list_def
      vocab_of_items_def spec_vocab_first_seen_def first_seen_def)

text \<open>
  Claim C1 fails on the source. With a cutoff the source takes the branch that enumerates
  the counter's keys and indexes each key with \<open>[0]\<close>: the keys of the result are first
  characters of tokens, a later token with the same first character overwrites the index,
  and the cutoff is not used. For the source tokens \<open>ab\<close>, \<open>ac\<close>, \<open>b\<close> and the cutoff 1 the
  result has two entries, the key \<open>a\<close> is not a token, and the indices are 1 and 2.
\<close>

theorem get_token_to_index_cutoff_keys_first_characters:
  "get_token_to_index [\<lparr>source = [''ab'', ''ac'', ''b''], target = [''x'']\<rparr>] (Some 1)
     = Inr ([(''a'', 1), (''b'', 2)], [(''x'', 0)])"
  by (simp add: get_token_to_index_def counter_incr_def enumerate_list_def)

section \<open>Alignment tokens in the loader\<close>





lemma traverse_length: "traverse f xs = Inr ys \<Longrightarrow> length ys = length xs"
proof (induction xs arbitrary: ys)
  case Nil
  then show ?case by simp
next
  case (Cons x xs)
  from Cons.prems obtain y ys' where "traverse f xs = Inr ys'" and "ys = y # ys'"
    by (auto split: sum.splits)
  with Cons.IH show ?case by simp
qed

lemma traverse_map_length:
  "traverse (\<lambda>x. traverse g (h x)) xs = Inr ys \<Longrightarrow> map length ys = map (\<lambda>x. length (h x)) xs"
proof (induction xs arbitrary: ys)
  case Nil
  then show ?case by simp
next
  case (Cons x xs)
  from Cons.prems obtain y ys' where y: "traverse g (h x) = Inr y"
    and rest: "traverse (\<lambda>x. traverse g (h x)) xs = Inr ys'" and ys: "ys = y # ys'"
    by (auto split: sum.splits)
  from y have "length y = length (h x)" by (rule traverse_length)
  with Cons.IH [OF rest] ys show ?case by simp
qed

lemma length_split_on:
  "length (split_on sep cur s) = Suc (count_list s sep)"
  by (induction s arbitrary: cur) simp_all





lemma parse_alignments_arity:
  assumes "parse_alignments t = Inr tuples"
  shows "map length tuples = map (\<lambda>tok. Suc (count_list tok (CHR ''-''))) (str_split t)"
proof -
  from assms have "traverse (\<lambda>pair. traverse py_int (split_on (CHR ''-'') [] pair)) (str_split t) = Inr tuples"
    by (simp only: parse_alignments_def)
  then have "map length tuples = map (\<lambda>x. length (split_on (CHR ''-'') [] x)) (str_split t)"
    by (rule traverse_map_length [of py_int "split_on (CHR ''-'') []"])
  then show ?thesis by (simp add: length_split_on)
qed



















text \<open>\<open>int\<close> rejects a literal of more than 4300 digits.\<close>

lemma parse_digits_all_digits:
  "\<forall>c\<in>set cs. isdigit c \<Longrightarrow> \<exists>n. parse_digits acc cs = Some n"
  by (induction acc cs rule: parse_digits.induct) simp_all

lemma isdigit_not_int_isspace: "isdigit c \<Longrightarrow> \<not> int_isspace c"
  by (auto simp add: isdigit_def int_isspace_def)

lemma int_strip_digits:
  assumes "\<forall>c\<in>set ds. isdigit c"
  shows "int_strip ds = ds"
proof (cases ds)
  case Nil
  then show ?thesis by (simp add: int_strip_def)
next
  case (Cons c cs)
  then have ne: "ds \<noteq> []"
    by simp
  with assms have "\<not> int_isspace (hd ds)" and "\<not> int_isspace (last ds)"
    by (simp_all add: isdigit_not_int_isspace)
  with ne have "dropWhile int_isspace ds = ds" and "dropWhile int_isspace (rev ds) = rev ds"
    by (simp_all add: dropWhile_eq_self_iff hd_rev)
  then show ?thesis by (simp add: int_strip_def)
qed

lemma py_int_digit_limit:
  assumes "\<forall>c\<in>set ds. isdigit c" and "int_max_str_digits < length ds"
  shows "py_int ds = Inl ValueError"
proof -
  from assms(2) obtain c cs where ds: "ds = c # cs"
    by (cases ds) simp_all
  with assms(1) have c: "isdigit c" and cs: "\<forall>c\<in>set cs. isdigit c"
    by simp_all
  from c have sign: "c \<noteq> CHR ''-''" "c \<noteq> CHR ''+''"
    by (auto simp add: isdigit_def)
  from cs obtain n where "parse_digits (digit_val c) cs = Some n"
    using parse_digits_all_digits by blast
  with c have "parse_unsigned (c # cs) = Some n"
    by (simp add: parse_unsigned_def)
  moreover from assms(1) have "filter isdigit ds = ds"
    by simp
  moreover from assms(1) have "int_strip ds = ds"
    by (rule int_strip_digits)
  ultimately show ?thesis
    using assms(2) sign ds by (simp add: py_int_def)
qed




section \<open>The rewrite of ampersands\<close>

text \<open>
  Lines 51--57 before the parse. A missing file and bytes the codec rejects end the load
  with the file system as it was; otherwise the file is rewritten, whatever the parser
  says afterwards: it holds the encoding of the text read, with the line ends normalised,
  every ampersand replaced by \<open>&amp;\<close> and every line end written as the platform's separator.
\<close>

lemma extract_sentences_missing_file:
  "fs filename = None \<Longrightarrow>
   extract_sentences io ET_parse fs filename = (fs, Inl FileNotFoundError)"
  by (simp add: extract_sentences_def read_text_def)

lemma extract_sentences_undecodable:
  "fs filename = Some file_bytes \<Longrightarrow> decode io file_bytes = None \<Longrightarrow>
   extract_sentences io ET_parse fs filename = (fs, Inl UnicodeDecodeError)"
  by (simp add: extract_sentences_def read_text_def)

lemma extract_sentences_persists:
  "fs filename = Some file_bytes \<Longrightarrow> decode io file_bytes = Some chars \<Longrightarrow>
   encode io (str_replace (CHR 0x0A) (linesep io)
     (str_replace (CHR ''&'') ''&amp;'' (universal_newlines chars))) = Some new_bytes \<Longrightarrow>
   fst (extract_sentences io ET_parse fs filename) = fs(filename \<mapsto> new_bytes)"
  by (simp add: extract_sentences_def read_text_def write_text_def split: sum.splits)

lemma str_replace_absent: "c \<notin> set s \<Longrightarrow> str_replace c r s = s"
  by (induction s) auto

lemma universal_newlines_id: "CHR 0x0D \<notin> set s \<Longrightarrow> universal_newlines s = s"
  by (induction s rule: universal_newlines.induct) auto

text \<open>
  So the file is left byte for byte as it was when it holds no ampersand and no carriage
  return, the codec reads and writes it unchanged, and the line separator is \<open>LF\<close>.
\<close>

lemma extract_sentences_file_unchanged:
  assumes "fs filename = Some file_bytes"
    and "decode io file_bytes = Some file_bytes" and "encode io file_bytes = Some file_bytes"
    and "linesep io = [CHR 0x0A]"
    and "CHR ''&'' \<notin> set file_bytes" and "CHR 0x0D \<notin> set file_bytes"
  shows "fst (extract_sentences io ET_parse fs filename) = fs"
proof -
  have "str_replace (CHR 0x0A) [CHR 0x0A] s = s" for s
    by (induction s) simp_all
  with assms have "encode io (str_replace (CHR 0x0A) (linesep io)
     (str_replace (CHR ''&'') ''&amp;'' (universal_newlines file_bytes))) = Some file_bytes"
    by (simp add: str_replace_absent universal_newlines_id)
  with assms(1,2) have "fst (extract_sentences io ET_parse fs filename) = fs(filename \<mapsto> file_bytes)"
    by (rule extract_sentences_persists)
  with assms(1) show ?thesis
    by (simp add: fun_upd_idem)
qed

text \<open>
  Claim C5 does not hold of the code. Line 54 is \<^verbatim>\<open>filedata.replace('&', '&amp;')\<close>: it
  replaces every ampersand, that of an entity reference too, and detects nothing. A first
  load of a file holding the raw text \<open>R & D\<close> writes \<open>R &amp; D\<close> to the file and returns the
  tokens \<open>R\<close>, \<open>&\<close>, \<open>D\<close>. A second load of the file the first one wrote, which is in
  corrected form, writes \<open>R &amp;amp; D\<close> and returns the tokens \<open>R\<close>, \<open>&amp;\<close>, \<open>D\<close>: the step is
  not idempotent on its own output, and it alters the token content of a document whose
  ampersands are all escaped. The parser is given by its values on the two documents it
  is handed, the trees an XML parser builds from them.
\<close>

theorem extract_sentences_escapes_escaped_ampersand:
  "extract_sentences \<lparr>decode = Some, encode = Some, linesep = [CHR 0x0A]\<rparr>
     (\<lambda>file_bytes.
        if file_bytes = ''<sentences><s><english>R &amp; D</english><czech>V &amp; V</czech><sure>1-1</sure><possible/></s></sentences>''
        then Inr (Element ''sentences'' None [Element ''s'' None
          [Element ''english'' (Some ''R & D'') [], Element ''czech'' (Some ''V & V'') [],
           Element ''sure'' (Some ''1-1'') [], Element ''possible'' None []]])
        else if file_bytes = ''<sentences><s><english>R &amp;amp; D</english><czech>V &amp;amp; V</czech><sure>1-1</sure><possible/></s></sentences>''
        then Inr (Element ''sentences'' None [Element ''s'' None
          [Element ''english'' (Some ''R &amp; D'') [], Element ''czech'' (Some ''V &amp; V'') [],
           Element ''sure'' (Some ''1-1'') [], Element ''possible'' None []]])
        else Inl ParseError)
     [''corpus.xml'' \<mapsto> ''<sentences><s><english>R & D</english><czech>V & V</czech><sure>1-1</sure><possible/></s></sentences>'']
     ''corpus.xml''
   = ([''corpus.xml'' \<mapsto> ''<sentences><s><english>R &amp; D</english><czech>V &amp; V</czech><sure>1-1</sure><possible/></s></sentences>''],
      Inr ([\<lparr>source = [''R'', ''&'', ''D''], target = [''V'', ''&'', ''V'']\<rparr>],
           [\<lparr>sure = [[1, 1]], possible = []\<rparr>]))
   \<and> extract_sentences \<lparr>decode = Some, encode = Some, linesep = [CHR 0x0A]\<rparr>
     (\<lambda>file_bytes.
        if file_bytes = ''<sentences><s><english>R &amp; D</english><czech>V &amp; V</czech><sure>1-1</sure><possible/></s></sentences>''
        then Inr (Element ''sentences'' None [Element ''s'' None
          [Element ''english'' (Some ''R & D'') [], Element ''czech'' (Some ''V & V'') [],
           Element ''sure'' (Some ''1-1'') [], Element ''possible'' None []]])
        else if file_bytes = ''<sentences><s><english>R &amp;amp; D</english><czech>V &amp;amp; V</czech><sure>1-1</sure><possible/></s></sentences>''
        then Inr (Element ''sentences'' None [Element ''s'' None
          [Element ''english'' (Some ''R &amp; D'') [], Element ''czech'' (Some ''V &amp; V'') [],
           Element ''sure'' (Some ''1-1'') [], Element ''possible'' None []]])
        else Inl ParseError)
     [''corpus.xml'' \<mapsto> ''<sentences><s><english>R &amp; D</english><czech>V &amp; V</czech><sure>1-1</sure><possible/></s></sentences>'']
     ''corpus.xml''
   = ([''corpus.xml'' \<mapsto> ''<sentences><s><english>R &amp;amp; D</english><czech>V &amp;amp; V</czech><sure>1-1</sure><possible/></s></sentences>''],
      Inr ([\<lparr>source = [''R'', ''&amp;'', ''D''], target = [''V'', ''&amp;'', ''V'']\<rparr>],
           [\<lparr>sure = [[1, 1]], possible = []\<rparr>]))"
  by (simp add: extract_sentences_def read_text_def write_text_def extract_record_def
      find_child_def parse_alignments_def str_split_def isspace_def py_int_def int_strip_def
      int_isspace_def parse_unsigned_def isdigit_def digit_val_def int_max_str_digits_def)

end
